theory Spec2Isabelle
  imports Main "HOL-Library.Char_ord" "HOL-Library.List_Lexorder"
begin

section \<open>The C library calls made by db.c\<close>

text \<open>
  A C string is modelled by the list of its bytes before the terminating NUL, so no
  element of such a list is the NUL byte. \<open>strcmp\<close> compares byte by byte as unsigned
  values; the C standard fixes only the sign of its result, which is all db.c looks at,
  so the model returns \<open>-1\<close>, \<open>0\<close> or \<open>1\<close>.
\<close>

fun strcmp :: "string \<Rightarrow> string \<Rightarrow> int" where
  "strcmp [] [] = 0"
| "strcmp [] (b # bs) = - 1"
| "strcmp (a # as) [] = 1"
| "strcmp (a # as) (b # bs) =
     (if a = b then strcmp as bs
      else if (of_char a :: nat) < of_char b then - 1 else 1)"

text \<open>\<open>#define MAXLEN 256\<close>\<close>

definition MAXLEN :: nat where
  "MAXLEN = 256"

text \<open>
  \<open>snprintf(buf, n, "%s", s)\<close>: the contents of \<open>buf\<close> afterwards. At most \<open>n - 1\<close>
  bytes of \<open>s\<close> are stored before the terminator; with \<open>n = 0\<close> nothing is written and
  the buffer keeps what it held.
\<close>

definition snprintf :: "string \<Rightarrow> nat \<Rightarrow> string \<Rightarrow> string" where
  "snprintf buf n s = (if n = 0 then buf else take (n - 1) s)"

section \<open>Nodes, pointers and the lock log\<close>

text \<open>
  Modelled from the spec: the declaration of \<open>node_t\<close> (in db.h, which is not among the
  sources). The specification's Node owns a key string, a value string, a lock and at
  most two child nodes; db.c reads and writes the fields \<open>name\<close>, \<open>value\<close>, \<open>lchild\<close>,
  \<open>rchild\<close> and \<open>lock\<close>, in the order of the initialiser of \<open>head\<close>. A child pointer is
  \<open>NULL\<close> or owns the node it points to: every node is linked from exactly one place, so
  the heap below \<open>head\<close> is a tree and a \<open>node_t *\<close> field is a \<open>node option\<close>. The field
  \<open>value\<close> is called \<open>val\<close> here. The state of a lock is not a field of the model: the
  lock calls are logged instead.
\<close>

datatype node =
  Node (name: string) (val: string) (lchild: "node option") (rchild: "node option")

text \<open>
  The address of a node is its access path from \<open>&head\<close>: the empty path is \<open>&head\<close>
  itself. A non-null \<open>node_t *\<close> held in a local variable is the pair of that address
  and the node read through it. Addresses are those of the tree as it stands when the
  operation starts; an operation writes to the tree only after its last descent step.
\<close>

datatype dir = Lc | Rc

type_synonym ptr = "dir list"

fun child :: "dir \<Rightarrow> node \<Rightarrow> node option" where
  "child Lc n = lchild n"
| "child Rc n = rchild n"

fun set_child :: "dir \<Rightarrow> node option \<Rightarrow> node \<Rightarrow> node" where
  "set_child Lc c (Node nm v l r) = Node nm v c r"
| "set_child Rc c (Node nm v l r) = Node nm v l c"

fun set_payload :: "string \<Rightarrow> string \<Rightarrow> node \<Rightarrow> node" where
  "set_payload nm' v' (Node nm v l r) = Node nm' v' l r"

text \<open>
  A write through a pointer: \<open>store head p f\<close> replaces the node at address \<open>p\<close> of the
  tree under \<open>head\<close> by \<open>f\<close> of it. db.c only writes through addresses that \<open>search\<close>
  or the successor loop has just returned; at an address that is not in the tree the
  model writes nothing.
\<close>

fun store :: "node \<Rightarrow> ptr \<Rightarrow> (node \<Rightarrow> node) \<Rightarrow> node" where
  "store n [] f = f n"
| "store (Node nm v l r) (Lc # p) f = Node nm v (map_option (\<lambda>c. store c p f) l) r"
| "store (Node nm v l r) (Rc # p) f = Node nm v l (map_option (\<lambda>c. store c p f) r)"

text \<open>
  What one thread does to the locks and to the allocator, in program order:
  \<open>lock(lt, &n->lock)\<close>, \<open>pthread_rwlock_unlock(&n->lock)\<close> and \<open>node_destructor(n)\<close>.
\<close>

datatype lock_t = l_read | l_write

datatype event = Lock lock_t ptr | Unlock ptr | Destroy ptr

text \<open>\<open>node_t head = {"", "", 0, 0, PTHREAD_RWLOCK_INITIALIZER}\<close>\<close>

definition head0 :: node where
  "head0 = Node [] [] None None"

section \<open>node_constructor\<close>

text \<open>
  The calls of \<open>node_constructor\<close> that can fail, in the order it makes them: the three
  \<open>malloc\<close>s, the two \<open>snprintf\<close>s and \<open>pthread_rwlock_init\<close>. The environment decides
  which one fails, if any.
\<close>

datatype fault =
  NoFault | NodeMalloc | NameMalloc | ValueMalloc | NameSnprintf | ValueSnprintf | LockInit

definition node_constructor ::
  "fault \<Rightarrow> string \<Rightarrow> string \<Rightarrow> node option \<Rightarrow> node option \<Rightarrow> node option" where
  "node_constructor flt arg_name arg_value arg_left arg_right =
     (let name_len = length arg_name; val_len = length arg_value in
      if name_len > MAXLEN \<or> val_len > MAXLEN then None
      else if flt = NodeMalloc then None
      else if flt = NameMalloc then None
      else if flt = ValueMalloc then None
      else if flt = NameSnprintf then None
      else if flt = ValueSnprintf then None
      else if flt = LockInit then None
      else Some (Node (snprintf [] MAXLEN arg_name) (snprintf [] MAXLEN arg_value)
                   arg_left arg_right))"

section \<open>search\<close>

lemma child_size [termination_simp]: "child d p = Some c \<Longrightarrow> size c < size p"
  by (cases p; cases d) auto

lemma lchild_size [termination_simp]: "lchild p = Some c \<Longrightarrow> size c < size p"
  by (cases p) auto

text \<open>
  \<open>search(name, parent, parentpp, lock)\<close>. The flag says whether \<open>parentpp\<close> is non-null.
  The result is the returned pointer, the parent the descent stopped at (what
  \<open>*parentpp\<close> receives when \<open>parentpp\<close> is non-null) and the lock calls made.
\<close>

fun search ::
  "string \<Rightarrow> ptr \<times> node \<Rightarrow> bool \<Rightarrow> lock_t \<Rightarrow>
     (ptr \<times> node) option \<times> (ptr \<times> node) \<times> event list" where
  "search nm (pp, parent) parentpp lk =
     (let d = (if strcmp nm (name parent) < 0 then Lc else Rc) in
      case child d parent of
        None \<Rightarrow> (None, (pp, parent), if parentpp then [] else [Unlock pp])
      | Some nx \<Rightarrow>
          if strcmp nm (name nx) = 0
          then (Some (pp @ [d], nx), (pp, parent),
                Lock lk (pp @ [d]) # (if parentpp then [] else [Unlock pp]))
          else (case search nm (pp @ [d], nx) parentpp lk of
                  (result, par, evs) \<Rightarrow>
                    (result, par, Lock lk (pp @ [d]) # Unlock pp # evs)))"

section \<open>db_query, db_add, db_remove\<close>

text \<open>
  \<open>db_query(name, result, len)\<close>: the contents of the \<open>result\<close> buffer afterwards, and
  the lock calls. \<open>len\<close> is the buffer size as \<open>snprintf\<close> receives it.
\<close>

definition db_query :: "string \<Rightarrow> string \<Rightarrow> nat \<Rightarrow> node \<Rightarrow> string \<times> event list" where
  "db_query nm result len head =
     (case search nm ([], head) False l_read of
        (None, par, evs) \<Rightarrow> (snprintf result len ''not found'', Lock l_read [] # evs)
      | (Some (tp, target), par, evs) \<Rightarrow>
          (snprintf result len (val target), Lock l_read [] # evs @ [Unlock tp]))"

text \<open>
  \<open>db_add(name, value)\<close>: the returned int, the tree afterwards and the lock calls.
  The return value of \<open>node_constructor\<close> is stored in the parent without a test.
\<close>

definition db_add :: "fault \<Rightarrow> string \<Rightarrow> string \<Rightarrow> node \<Rightarrow> int \<times> node \<times> event list" where
  "db_add flt nm v head =
     (case search nm ([], head) True l_write of
        (Some (tp, target), (pp, parent), evs) \<Rightarrow>
          (0, head, Lock l_write [] # evs @ [Unlock tp, Unlock pp])
      | (None, (pp, parent), evs) \<Rightarrow>
          (let newnode = node_constructor flt nm v None None;
               head' = (if strcmp nm (name parent) < 0
                      then store head pp (set_child Lc newnode)
                      else store head pp (set_child Rc newnode))
           in (1, head', Lock l_write [] # evs @ [Unlock pp])))"

text \<open>
  The \<open>while (next->lchild != 0)\<close> loop of \<open>db_remove\<close>: from \<open>next\<close>, whose address is
  \<open>np\<close>, down the \<open>lchild\<close> chain. \<open>pnext\<close> is the address of the pointer field that
  leads to \<open>next\<close>: a node address and the field of that node.
\<close>

fun leftmost ::
  "ptr \<times> node \<Rightarrow> ptr \<times> dir \<Rightarrow> (ptr \<times> node) \<times> (ptr \<times> dir) \<times> event list" where
  "leftmost (np, next) pnext =
     (case lchild next of
        None \<Rightarrow> ((np, next), pnext, [])
      | Some nextl \<Rightarrow>
          (case leftmost (np @ [Lc], nextl) (np, Lc) of
             (res, pn, evs) \<Rightarrow> (res, pn, Lock l_write (np @ [Lc]) # Unlock np # evs)))"

text \<open>
  \<open>db_remove(name)\<close>: the returned int, the tree afterwards, and the lock and destructor
  calls. The two \<open>realloc\<close>s of the last case are taken to succeed; the source does not
  test them.
\<close>

definition db_remove :: "string \<Rightarrow> node \<Rightarrow> int \<times> node \<times> event list" where
  "db_remove nm head =
     (case search nm ([], head) True l_write of
        (None, (pp, parent), evs) \<Rightarrow> (0, head, Lock l_write [] # evs @ [Unlock pp])
      | (Some (dp, dnode), (pp, parent), evs) \<Rightarrow>
          (case rchild dnode of
             None \<Rightarrow>
               (1,
                if strcmp (name dnode) (name parent) < 0
                then store head pp (set_child Lc (lchild dnode))
                else store head pp (set_child Rc (lchild dnode)),
                Lock l_write [] # evs @ [Unlock dp, Destroy dp, Unlock pp])
           | Some next0 \<Rightarrow>
               (case lchild dnode of
                  None \<Rightarrow>
                    (1,
                     if strcmp (name dnode) (name parent) < 0
                     then store head pp (set_child Lc (rchild dnode))
                     else store head pp (set_child Rc (rchild dnode)),
                     Lock l_write [] # evs @ [Unlock dp, Destroy dp, Unlock pp])
                | Some l0 \<Rightarrow>
                    (case leftmost (dp @ [Rc], next0) (dp, Rc) of
                       ((np, next), (fp, fd), evs') \<Rightarrow>
                         (let head1 = store head dp
                                (set_payload (snprintf (name dnode) MAXLEN (name next))
                                   (snprintf (val dnode) MAXLEN (val next)));
                              head2 = store head1 fp (set_child fd (rchild next))
                          in (1, head2,
                              Lock l_write [] # evs @
                              [Unlock pp, Lock l_write (dp @ [Rc])] @ evs' @
                              [Unlock dp, Unlock np, Destroy np]))))))"

section \<open>db_print and db_cleanup\<close>

text \<open>
  One call of \<open>db_print_recurs\<close> writes one line: \<open>lvl\<close> spaces (\<open>print_spaces\<close>), then
  \<open>(null)\<close>, \<open>(root)\<close> or the name, a space and the value, then a newline. A line is
  recorded as its level and what follows the spaces; \<open>render\<close> gives its bytes.
\<close>

datatype item = Null_item | Root_item | Entry string string

type_synonym line = "nat \<times> item"

fun render :: "line \<Rightarrow> string" where
  "render (lvl, Null_item) = replicate lvl (CHR '' '') @ ''(null)'' @ [CHR 0x0A]"
| "render (lvl, Root_item) = replicate lvl (CHR '' '') @ ''(root)'' @ [CHR 0x0A]"
| "render (lvl, Entry nm v) = replicate lvl (CHR '' '') @ nm @ '' '' @ v @ [CHR 0x0A]"

text \<open>
  \<open>db_print_recurs(node, lvl, out)\<close>: the lines written and the lock calls. The first
  argument is the address of the node with the pointer read there; the test
  \<open>node == &head\<close> is the test for the empty address.
\<close>

fun db_print_recurs :: "ptr \<Rightarrow> node option \<Rightarrow> nat \<Rightarrow> line list \<times> event list" where
  "db_print_recurs p None lvl = ([(lvl, Null_item)], [])"
| "db_print_recurs p (Some (Node nm v l r)) lvl =
     (case db_print_recurs (p @ [Lc]) l (lvl + 1) of
        (outl, evl) \<Rightarrow>
          (case db_print_recurs (p @ [Rc]) r (lvl + 1) of
             (outr, evr) \<Rightarrow>
               ((lvl, if p = [] then Root_item else Entry nm v) # outl @ outr,
                (if l \<noteq> None then [Lock l_read (p @ [Lc])] else []) @ evl @
                (if r \<noteq> None then [Lock l_read (p @ [Rc])] else []) @ evr @
                [Unlock p])))"

text \<open>\<open>isspace\<close> in the C locale: space and the control characters 9 to 13.\<close>

definition isspace :: "char \<Rightarrow> bool" where
  "isspace c = (c = CHR '' '' \<or> (9 \<le> (of_char c :: nat) \<and> (of_char c :: nat) \<le> 13))"

text \<open>
  \<open>db_print(filename)\<close>: the returned int, where the dump went, the lines written and
  the lock calls. \<open>can_open\<close> says for which names \<open>fopen(filename, "w+")\<close> succeeds.
\<close>

datatype sink = Stdout | File string

definition db_print ::
  "(string \<Rightarrow> bool) \<Rightarrow> string option \<Rightarrow> node \<Rightarrow> int \<times> (sink \<times> line list) option \<times> event list" where
  "db_print can_open filename head =
     (case filename of
        None \<Rightarrow>
          (case db_print_recurs [] (Some head) 0 of
             (out, evs) \<Rightarrow> (0, Some (Stdout, out), Lock l_read [] # evs))
      | Some fname \<Rightarrow>
          (let fname' = dropWhile isspace fname in
           if fname' = [] then
             (case db_print_recurs [] (Some head) 0 of
                (out, evs) \<Rightarrow> (0, Some (Stdout, out), Lock l_read [] # evs))
           else if \<not> can_open fname' then (- 1, None, [])
           else
             (case db_print_recurs [] (Some head) 0 of
                (out, evs) \<Rightarrow> (0, Some (File fname', out), Lock l_read [] # evs))))"

text \<open>\<open>db_cleanup_recurs(node)\<close> and \<open>db_cleanup()\<close>: the \<open>node_destructor\<close> calls, in order.\<close>

fun db_cleanup_recurs :: "ptr \<Rightarrow> node option \<Rightarrow> event list" where
  "db_cleanup_recurs p None = []"
| "db_cleanup_recurs p (Some (Node nm v l r)) =
     db_cleanup_recurs (p @ [Lc]) l @ db_cleanup_recurs (p @ [Rc]) r @ [Destroy p]"

definition db_cleanup :: "node \<Rightarrow> event list" where
  "db_cleanup head =
     db_cleanup_recurs [Lc] (lchild head) @ db_cleanup_recurs [Rc] (rchild head)"

section \<open>interpret_command\<close>

text \<open>
  The directive \<open>%255s\<close> of \<open>sscanf\<close>: white space is skipped, then at most \<open>n\<close> bytes
  that are not white space are stored. \<open>None\<close> is the input failure (the string ends
  before a byte is stored); otherwise the token and the rest of the input.
\<close>

definition scan_s :: "nat \<Rightarrow> string \<Rightarrow> (string \<times> string) option" where
  "scan_s n s =
     (let s' = dropWhile isspace s in
      if s' = [] then None
      else (let tok = take n (takeWhile (\<lambda>c. \<not> isspace c) s')
            in Some (tok, drop (length tok) s')))"

text \<open>
  \<open>sscanf(s, "%255s", name)\<close> and \<open>sscanf(s, "%255s %255s", name, value)\<close>. The caller
  tests the return value against the number of directives, so the model gives the
  stored tokens when all were stored and \<open>None\<close> when the return value is smaller.
\<close>

definition sscanf_1 :: "string \<Rightarrow> string option" where
  "sscanf_1 s = (case scan_s 255 s of None \<Rightarrow> None | Some (nm, rest) \<Rightarrow> Some nm)"

definition sscanf_2 :: "string \<Rightarrow> (string \<times> string) option" where
  "sscanf_2 s =
     (case scan_s 255 s of
        None \<Rightarrow> None
      | Some (nm, rest) \<Rightarrow>
          (case scan_s 255 rest of None \<Rightarrow> None | Some (v, rest') \<Rightarrow> Some (nm, v)))"

text \<open>
  \<open>fgets(ibuf, n, f)\<close> stores at most \<open>n - 1\<close> bytes and stops after a newline:
  \<open>fgets k s\<close> is the buffer and the unread rest of the stream for \<open>k = n - 1\<close>. The loop
  \<open>while (fgets(ibuf, sizeof(ibuf), finput) != 0)\<close> sees the buffers \<open>fgets_loop s\<close>.
  A file is the list of its bytes, none of them NUL.
\<close>

fun fgets :: "nat \<Rightarrow> string \<Rightarrow> string \<times> string" where
  "fgets 0 s = ([], s)"
| "fgets (Suc k) [] = ([], [])"
| "fgets (Suc k) (c # s) =
     (if c = CHR 0x0A then ([c], s)
      else (case fgets k s of (buf, rest) \<Rightarrow> (c # buf, rest)))"

lemma fgets_rest_shorter: "length (snd (fgets k s)) \<le> length s"
  by (induction k s rule: fgets.induct) (auto split: prod.splits)

lemma fgets_rest_less:
  assumes "s \<noteq> []" and "(buf, rest) = fgets (MAXLEN - 1) s"
  shows "length rest < length s"
proof (cases s)
  case Nil
  with assms show ?thesis by simp
next
  case (Cons c cs)
  have "length (snd (fgets 254 cs)) \<le> length cs"
    by (rule fgets_rest_shorter)
  with assms Cons show ?thesis
    by (auto simp: MAXLEN_def eval_nat_numeral split: if_splits prod.splits)
qed

function fgets_loop :: "string \<Rightarrow> string list" where
  "fgets_loop s =
     (if s = [] then []
      else (case fgets (MAXLEN - 1) s of (buf, rest) \<Rightarrow> buf # fgets_loop rest))"
  by pat_completeness auto
termination
  by (relation "measure length") (auto dest: fgets_rest_less)

declare fgets_loop.simps [simp del]

text \<open>
  \<open>interpret_command(command, response, len)\<close>: the \<open>response\<close> buffer and the tree
  afterwards. \<open>fs\<close> gives the bytes of the files \<open>fopen(name, "r")\<close> can open. \<open>flts\<close>
  lists, for the calls of \<open>db_add\<close> in order, the fault its \<open>node_constructor\<close> would
  meet; past the end of the list there is none. A batch file may name a batch file, so
  the first argument bounds the nesting of \<open>f\<close> commands and \<open>None\<close> is the run that
  nests deeper. The lock calls of the database functions are not carried further, and
  a cancellation of the thread at \<open>pthread_testcancel\<close> is not modelled.
\<close>

fun next_fault :: "fault list \<Rightarrow> fault" where
  "next_fault [] = NoFault"
| "next_fault (f # fs) = f"

fun interpret_command ::
  "nat \<Rightarrow> (string \<Rightarrow> string option) \<Rightarrow> string \<Rightarrow> string \<Rightarrow> nat \<Rightarrow> node \<times> fault list \<Rightarrow>
     (string \<times> node \<times> fault list) option"
and interpret_lines ::
  "nat \<Rightarrow> (string \<Rightarrow> string option) \<Rightarrow> string list \<Rightarrow> string \<Rightarrow> nat \<Rightarrow> node \<times> fault list \<Rightarrow>
     (string \<times> node \<times> fault list) option" where
  "interpret_command 0 fs command response len (head, flts) = None"
| "interpret_command (Suc n) fs [] response len (head, flts) =
     Some (snprintf response len ''ill-formed command'', head, flts)"
| "interpret_command (Suc n) fs [c] response len (head, flts) =
     Some (snprintf response len ''ill-formed command'', head, flts)"
| "interpret_command (Suc n) fs (c # c1 # cs) response len (head, flts) =
     (if c = CHR ''q'' then
        (case sscanf_1 (c1 # cs) of
           None \<Rightarrow> Some (snprintf response len ''ill-formed command'', head, flts)
         | Some nm \<Rightarrow>
             (let response' = fst (db_query nm response len head) in
              Some (if length response' = 0 then snprintf response' len ''not found''
                    else response', head, flts)))
      else if c = CHR ''a'' then
        (case sscanf_2 (c1 # cs) of
           None \<Rightarrow> Some (snprintf response len ''ill-formed command'', head, flts)
         | Some (nm, v) \<Rightarrow>
             (case db_add (next_fault flts) nm v head of
                (ret, head', evs) \<Rightarrow>
                  Some (if ret \<noteq> 0 then snprintf response len ''added''
                        else snprintf response len ''already in database'',
                        head', tl flts)))
      else if c = CHR ''d'' then
        (case sscanf_1 (c1 # cs) of
           None \<Rightarrow> Some (snprintf response len ''ill-formed command'', head, flts)
         | Some nm \<Rightarrow>
             (case db_remove nm head of
                (ret, head', evs) \<Rightarrow>
                  Some (if ret \<noteq> 0 then snprintf response len ''removed''
                        else snprintf response len ''not in database'',
                        head', flts)))
      else if c = CHR ''f'' then
        (case sscanf_1 (c1 # cs) of
           None \<Rightarrow> Some (snprintf response len ''ill-formed command'', head, flts)
         | Some nm \<Rightarrow>
             (case fs nm of
                None \<Rightarrow> Some (snprintf response len ''bad file name'', head, flts)
              | Some bytes \<Rightarrow>
                  (case interpret_lines n fs (fgets_loop bytes) response len (head, flts) of
                     None \<Rightarrow> None
                   | Some (response', head', flts') \<Rightarrow>
                       Some (snprintf response' len ''file processed'', head', flts'))))
      else Some (snprintf response len ''ill-formed command'', head, flts))"
| "interpret_lines n fs [] response len (head, flts) = Some (response, head, flts)"
| "interpret_lines n fs (ibuf # bufs) response len (head, flts) =
     (case interpret_command n fs ibuf response len (head, flts) of
        None \<Rightarrow> None
      | Some (response', head', flts') \<Rightarrow>
          interpret_lines n fs bufs response' len (head', flts'))"

section \<open>What the specification speaks of\<close>

text \<open>
  The specification's \<open>lookup(key) -> Found(value) | NotFound\<close>: the node \<open>search\<close>
  returns, read as \<open>db_query\<close> reads it, before the value is copied to a buffer.
\<close>

definition lookup :: "string \<Rightarrow> node \<Rightarrow> string option" where
  "lookup nm head =
     (case search nm ([], head) False l_read of
        (None, par, evs) \<Rightarrow> None
      | (Some (tp, target), par, evs) \<Rightarrow> Some (val target))"

text \<open>The keys below a pointer in in-order, and the key/value pairs in pre-order.\<close>

fun keys :: "node option \<Rightarrow> string list" where
  "keys None = []"
| "keys (Some (Node nm v l r)) = keys l @ nm # keys r"

fun preorder :: "node option \<Rightarrow> (string \<times> string) list" where
  "preorder None = []"
| "preorder (Some (Node nm v l r)) = (nm, v) # preorder l @ preorder r"

text \<open>
  The ordering invariant in the specification's words: for every node, all keys in its
  left subtree compare strictly less than its key and all keys in its right subtree
  strictly greater.
\<close>

fun ordered :: "node option \<Rightarrow> bool" where
  "ordered None = True"
| "ordered (Some (Node nm v l r)) =
     (list_all (\<lambda>k. strcmp k nm < 0) (keys l) \<and> list_all (\<lambda>k. 0 < strcmp k nm) (keys r) \<and>
      ordered l \<and> ordered r)"

text \<open>
  The invariant of the whole map: every node other than the sentinel is ordered, and
  the sentinel splits its two subtrees the way \<open>search\<close> leaves it (\<open>strcmp < 0\<close> to the
  left, anything else to the right).
\<close>

definition db_ordered :: "node \<Rightarrow> bool" where
  "db_ordered head =
     (list_all (\<lambda>k. strcmp k (name head) < 0) (keys (lchild head)) \<and>
      list_all (\<lambda>k. 0 \<le> strcmp k (name head)) (keys (rchild head)) \<and>
      ordered (lchild head) \<and> ordered (rchild head))"

text \<open>
  Reading a log of lock calls. \<open>held hs es\<close> is the list of locks the thread holds after
  the calls \<open>es\<close> when it held \<open>hs\<close> before; \<open>max_held\<close> is the largest number it holds at
  any moment of the log. \<open>coupled\<close> says that every lock other than the one of \<open>head\<close> is
  acquired while the lock of the parent node is held, that only held locks are released,
  and that no node is destroyed while its lock is held.
\<close>

fun release :: "ptr \<Rightarrow> ptr list \<Rightarrow> ptr list" where
  "release p [] = []"
| "release p (h # hs) = (if p = h then hs else h # release p hs)"

fun held :: "ptr list \<Rightarrow> event list \<Rightarrow> ptr list" where
  "held hs [] = hs"
| "held hs (Lock lt p # es) = held (p # hs) es"
| "held hs (Unlock p # es) = held (release p hs) es"
| "held hs (Destroy p # es) = held hs es"

fun coupled :: "ptr list \<Rightarrow> event list \<Rightarrow> bool" where
  "coupled hs [] = True"
| "coupled hs (Lock lt p # es) = ((p = [] \<or> butlast p \<in> set hs) \<and> coupled (p # hs) es)"
| "coupled hs (Unlock p # es) = (p \<in> set hs \<and> coupled (release p hs) es)"
| "coupled hs (Destroy p # es) = (p \<notin> set hs \<and> coupled hs es)"

fun max_held :: "ptr list \<Rightarrow> event list \<Rightarrow> nat" where
  "max_held hs [] = length hs"
| "max_held hs (Lock lt p # es) = max (length hs) (max_held (p # hs) es)"
| "max_held hs (Unlock p # es) = max (length hs) (max_held (release p hs) es)"
| "max_held hs (Destroy p # es) = max_held hs es"


definition all_locked :: "lock_t \<Rightarrow> ptr list \<Rightarrow> event list \<Rightarrow> bool" where
  "all_locked lk ps es = list_all (\<lambda>c. Lock lk c \<in> set es) ps"


definition successor_end :: "string \<Rightarrow> node \<Rightarrow> ptr" where
  "successor_end nm head =
     (case search nm ([], head) True l_write of
        (None, (pp, parent), evs) \<Rightarrow> pp
      | (Some (dp, dnode), par, evs) \<Rightarrow>
          (case rchild dnode of
             None \<Rightarrow> dp
           | Some next0 \<Rightarrow>
               (case lchild dnode of
                  None \<Rightarrow> dp
                | Some l0 \<Rightarrow> fst (fst (leftmost (dp @ [Rc], next0) (dp, Rc))))))"

text \<open>
  Reading a dump. \<open>entries\<close> are the key/value pairs of its lines, in the order written.
  \<open>read_back\<close> reads the lines as a pre-order listing in which every absent child is
  marked by a \<open>(null)\<close> line and every line is indented by its depth, and rebuilds the
  tree they describe, the \<open>(root)\<close> line standing for the sentinel with its empty name and
  value; it returns the tree with the lines left over. Its first argument bounds the depth
  of the recursion. \<open>dump\<close> is what \<open>db_print\<close> writes for a map.
\<close>

fun entries :: "line list \<Rightarrow> (string \<times> string) list" where
  "entries [] = []"
| "entries ((lvl, Entry nm v) # ls) = (nm, v) # entries ls"
| "entries ((lvl, Null_item) # ls) = entries ls"
| "entries ((lvl, Root_item) # ls) = entries ls"

fun read_back :: "nat \<Rightarrow> nat \<Rightarrow> line list \<Rightarrow> (node option \<times> line list) option" where
  "read_back 0 lvl ls = None"
| "read_back (Suc fuel) lvl [] = None"
| "read_back (Suc fuel) lvl ((lvl', it) # ls) =
     (if lvl' \<noteq> lvl then None
      else if it = Null_item then Some (None, ls)
      else if it = Root_item \<and> lvl \<noteq> 0 then None
      else
        (case read_back fuel (lvl + 1) ls of
           None \<Rightarrow> None
         | Some (l, ls1) \<Rightarrow>
             (case read_back fuel (lvl + 1) ls1 of
                None \<Rightarrow> None
              | Some (r, ls2) \<Rightarrow>
                  (case it of
                     Entry nm v \<Rightarrow> Some (Some (Node nm v l r), ls2)
                   | _ \<Rightarrow> Some (Some (Node [] [] l r), ls2)))))"

definition dump :: "node \<Rightarrow> line list" where
  "dump head = fst (db_print_recurs [] (Some head) 0)"

text \<open>
  A command line is ill-formed when it has at most one byte, when its first byte is none
  of \<open>q\<close>, \<open>a\<close>, \<open>d\<close> and \<open>f\<close>, or when \<open>sscanf\<close> does not find in the rest of the
  line the tokens its first byte asks for: two for \<open>a\<close>, one for the others.
\<close>

definition ill_formed :: "string \<Rightarrow> bool" where
  "ill_formed command =
     (length command \<le> 1 \<or>
      (if hd command = CHR ''a'' then sscanf_2 (tl command) = None
       else if hd command = CHR ''q'' \<or> hd command = CHR ''d'' \<or> hd command = CHR ''f''
       then sscanf_1 (tl command) = None
       else True))"

text \<open>
  The maps in which every stored name is shorter than \<open>MAXLEN\<close>. Every map db.c can
  build is one: \<open>head\<close> holds the empty name and every other name is written by
  \<open>snprintf\<close> with the bound \<open>MAXLEN\<close>.
\<close>

definition names_bounded :: "node \<Rightarrow> bool" where
  "names_bounded head = list_all (\<lambda>k. length k < MAXLEN) (keys (Some head))"

text \<open>
  The specification's removal scenario inserts a list of keys, each with the value
  equal to the key, with no allocation fault.
\<close>

fun insert_keys :: "string list \<Rightarrow> node \<Rightarrow> node" where
  "insert_keys [] head = head"
| "insert_keys (k # ks) head = insert_keys ks (fst (snd (db_add NoFault k k head)))"

section \<open>The descent and the removal as functions on trees\<close>

text \<open>
  The functions the proofs below reason with. None of them is a function of db.c; each is
  related to the embedded code by a lemma before it is used.
\<close>

text \<open>
  The data \<open>search\<close> returns, without the addresses and the lock calls: the side a
  descent for \<open>nm\<close> takes at a node, the path from the node where the descent starts to
  the parent where it stops, that parent, and the pointer found there.
\<close>

definition dir_of :: "string \<Rightarrow> node \<Rightarrow> dir" where
  "dir_of nm parent = (if strcmp nm (name parent) < 0 then Lc else Rc)"

fun walk :: "string \<Rightarrow> node \<Rightarrow> ptr" where
  "walk nm parent =
     (case child (dir_of nm parent) parent of
        None \<Rightarrow> []
      | Some nx \<Rightarrow> if strcmp nm (name nx) = 0 then [] else dir_of nm parent # walk nm nx)"

fun stop :: "string \<Rightarrow> node \<Rightarrow> node" where
  "stop nm parent =
     (case child (dir_of nm parent) parent of
        None \<Rightarrow> parent
      | Some nx \<Rightarrow> if strcmp nm (name nx) = 0 then parent else stop nm nx)"

declare walk.simps [simp del] stop.simps [simp del]

definition target :: "string \<Rightarrow> node \<Rightarrow> node option" where
  "target nm n = child (dir_of nm (stop nm n)) (stop nm n)"

text \<open>Reading through an address.\<close>

fun deref :: "node \<Rightarrow> ptr \<Rightarrow> node option" where
  "deref n [] = Some n"
| "deref n (d # p) = (case child d n of None \<Rightarrow> None | Some c \<Rightarrow> deref c p)"

definition search_evs :: "string \<Rightarrow> ptr \<times> node \<Rightarrow> bool \<Rightarrow> lock_t \<Rightarrow> event list" where
  "search_evs nm pn b lk = snd (snd (search nm pn b lk))"

text \<open>The addresses of the nodes below a pointer.\<close>

definition addrs :: "node option \<Rightarrow> ptr set" where
  "addrs t = (case t of None \<Rightarrow> {} | Some n \<Rightarrow> {p. deref n p \<noteq> None})"

text \<open>
  What the last case of \<open>db_remove\<close> does to the subtree of the node to delete: \<open>lmost\<close>
  is the node the \<open>while\<close> loop stops at, \<open>splice_min\<close> the subtree without that node
  (its right child takes its place), and \<open>remove_root\<close> the pointer that stands where
  the pointer to the deleted node stood, in each of the three cases.
\<close>

fun lmost :: "node \<Rightarrow> node" where
  "lmost n = (case lchild n of None \<Rightarrow> n | Some c \<Rightarrow> lmost c)"

fun splice_min :: "node \<Rightarrow> node option" where
  "splice_min n =
     (case lchild n of None \<Rightarrow> rchild n | Some c \<Rightarrow> Some (set_child Lc (splice_min c) n))"

declare lmost.simps [simp del] splice_min.simps [simp del]

definition remove_root :: "node \<Rightarrow> node option" where
  "remove_root dnode =
     (case rchild dnode of
        None \<Rightarrow> lchild dnode
      | Some r \<Rightarrow>
          (case lchild dnode of
             None \<Rightarrow> Some r
           | Some l \<Rightarrow>
               Some (Node (snprintf (name dnode) MAXLEN (name (lmost r)))
                       (snprintf (val dnode) MAXLEN (val (lmost r)))
                       (Some l) (splice_min r))))"

text \<open>
  The two sides of a node. \<open>fits\<close> says that a key may stand on side \<open>d\<close> of a node:
  strictly below its name on the left; on the right strictly above it, or, for the
  sentinel, not below it.
\<close>

definition other :: "dir \<Rightarrow> dir" where
  "other d = (if d = Lc then Rc else Lc)"

definition fits :: "bool \<Rightarrow> dir \<Rightarrow> string \<Rightarrow> node \<Rightarrow> bool" where
  "fits strict d k n =
     (if d = Lc then strcmp k (name n) < 0
      else if strict then 0 < strcmp k (name n) else 0 \<le> strcmp k (name n))"

text \<open>
  The maps the protocol can build: ordered, every name shorter than \<open>MAXLEN\<close>, no white
  space in a value. The empty map is one, and \<open>interpret_command\<close> keeps the property.
\<close>

definition spaceless :: "node \<Rightarrow> bool" where
  "spaceless head = list_all (\<lambda>(k, v). \<not> list_ex isspace v) (preorder (Some head))"

definition protocol_map :: "node \<Rightarrow> bool" where
  "protocol_map head = (db_ordered head \<and> names_bounded head \<and> spaceless head)"

section \<open>What search computes\<close>

text \<open>
  The order \<open>strcmp\<close> decides is the lexicographic order of byte lists.
\<close>

lemma strcmp_less_iff: "strcmp a b < 0 \<longleftrightarrow> a < b"
  by (induction a b rule: strcmp.induct) (auto simp: less_char_def [symmetric])

lemma strcmp_eq_iff: "strcmp a b = 0 \<longleftrightarrow> a = b"
  by (induction a b rule: strcmp.induct) auto

lemma strcmp_pos_iff: "0 < strcmp a b \<longleftrightarrow> b < a"
  by (induction a b rule: strcmp.induct) (auto simp: less_char_def [symmetric])

lemma strcmp_nonneg_iff: "0 \<le> strcmp a b \<longleftrightarrow> b \<le> a"
  using strcmp_less_iff [of a b] by auto

lemma search_unfold:
  "search nm (pp, parent) parentpp lk =
     (case child (dir_of nm parent) parent of
        None \<Rightarrow> (None, (pp, parent), if parentpp then [] else [Unlock pp])
      | Some nx \<Rightarrow>
          if strcmp nm (name nx) = 0
          then (Some (pp @ [dir_of nm parent], nx), (pp, parent),
                Lock lk (pp @ [dir_of nm parent]) # (if parentpp then [] else [Unlock pp]))
          else (case search nm (pp @ [dir_of nm parent], nx) parentpp lk of
                  (result, par, evs) \<Rightarrow>
                    (result, par, Lock lk (pp @ [dir_of nm parent]) # Unlock pp # evs)))"
  by (auto simp: dir_of_def split: option.splits)

lemma search_data:
  "fst (search nm (q, n) b lk) =
     map_option (Pair (q @ walk nm n @ [dir_of nm (stop nm n)])) (target nm n) \<and>
   fst (snd (search nm (q, n) b lk)) = (q @ walk nm n, stop nm n)"
proof (induction nm n arbitrary: q rule: walk.induct)
  case (1 nm parent)
  show ?case
  proof (cases "child (dir_of nm parent) parent")
    case None
    then show ?thesis
      by (simp add: search_unfold walk.simps [of nm parent] stop.simps [of nm parent] target_def
          del: search.simps)
  next
    case (Some nx)
    show ?thesis
    proof (cases "strcmp nm (name nx) = 0")
      case True
      with Some show ?thesis
        by (simp add: search_unfold walk.simps [of nm parent] stop.simps [of nm parent]
            target_def del: search.simps)
    next
      case False
      note IH = "1.IH" [OF Some False, of "q @ [dir_of nm parent]"]
      have "search nm (q, parent) b lk =
            (case search nm (q @ [dir_of nm parent], nx) b lk of
               (result, par, evs) \<Rightarrow>
                 (result, par, Lock lk (q @ [dir_of nm parent]) # Unlock q # evs))"
        using Some False by (subst search_unfold) simp
      with IH Some False show ?thesis
        by (simp add: walk.simps [of nm parent] stop.simps [of nm parent] target_def
            split: prod.splits del: search.simps)
    qed
  qed
qed

lemma search_cases:
  obtains evs where
    "search nm (q, n) b lk =
       (map_option (Pair (q @ walk nm n @ [dir_of nm (stop nm n)])) (target nm n),
        (q @ walk nm n, stop nm n), evs)"
  using search_data [of nm q n b lk]
  by (cases "search nm (q, n) b lk") auto

lemma lookup_target: "lookup nm head = map_option val (target nm head)"
proof -
  obtain evs where "search nm ([], head) False l_read =
       (map_option (Pair ([] @ walk nm head @ [dir_of nm (stop nm head)])) (target nm head),
        ([] @ walk nm head, stop nm head), evs)"
    by (rule search_cases)
  then show ?thesis
    by (cases "target nm head") (simp_all add: lookup_def del: search.simps)
qed

lemma db_query_lookup:
  "fst (db_query nm result len head) =
     snprintf result len (case lookup nm head of None \<Rightarrow> ''not found'' | Some v \<Rightarrow> v)"
proof -
  obtain evs where "search nm ([], head) False l_read =
       (map_option (Pair ([] @ walk nm head @ [dir_of nm (stop nm head)])) (target nm head),
        ([] @ walk nm head, stop nm head), evs)"
    by (rule search_cases)
  then show ?thesis
    by (cases "target nm head") (simp_all add: lookup_def db_query_def del: search.simps)
qed

lemma db_add_found:
  assumes "target nm head = Some t"
  shows "fst (db_add flt nm v head) = 0" and "fst (snd (db_add flt nm v head)) = head"
proof -
  obtain evs where "search nm ([], head) True l_write =
       (map_option (Pair ([] @ walk nm head @ [dir_of nm (stop nm head)])) (target nm head),
        ([] @ walk nm head, stop nm head), evs)"
    by (rule search_cases)
  with assms show "fst (db_add flt nm v head) = 0" and "fst (snd (db_add flt nm v head)) = head"
    by (simp_all add: db_add_def del: search.simps)
qed

lemma db_add_absent:
  assumes "target nm head = None"
  shows "fst (db_add flt nm v head) = 1"
    and "fst (snd (db_add flt nm v head)) =
           store head (walk nm head)
             (set_child (dir_of nm (stop nm head)) (node_constructor flt nm v None None))"
proof -
  obtain evs where "search nm ([], head) True l_write =
       (map_option (Pair ([] @ walk nm head @ [dir_of nm (stop nm head)])) (target nm head),
        ([] @ walk nm head, stop nm head), evs)"
    by (rule search_cases)
  with assms show "fst (db_add flt nm v head) = 1"
    and "fst (snd (db_add flt nm v head)) =
           store head (walk nm head)
             (set_child (dir_of nm (stop nm head)) (node_constructor flt nm v None None))"
    by (simp_all add: db_add_def dir_of_def Let_def del: search.simps)
qed

lemma name_set_child [simp]: "name (set_child d c n) = name n"
  by (cases n; cases d) simp_all

lemma val_set_child [simp]: "val (set_child d c n) = val n"
  by (cases n; cases d) simp_all

lemma child_set_child_same [simp]: "child d (set_child d c n) = c"
  by (cases n; cases d) simp_all

lemma child_set_child_other [simp]: "d \<noteq> e \<Longrightarrow> child d (set_child e c n) = child d n"
  by (cases n; cases d; cases e) simp_all

lemma set_child_child [simp]: "set_child d (child d n) n = n"
  by (cases n; cases d) simp_all

lemma dir_of_set_child [simp]: "dir_of nm (set_child d c n) = dir_of nm n"
  by (simp add: dir_of_def)

lemma store_Cons: "store n (d # p) f = set_child d (map_option (\<lambda>c. store c p f) (child d n)) n"
  by (cases n; cases d) simp_all

lemma name_store: "(\<And>m. name (f m) = name m) \<Longrightarrow> name (store n p f) = name n"
  by (cases p) (simp_all add: store_Cons)

lemma walk_None: "child (dir_of nm n) n = None \<Longrightarrow> walk nm n = []"
  by (simp add: walk.simps [of nm n])

lemma stop_None: "child (dir_of nm n) n = None \<Longrightarrow> stop nm n = n"
  by (simp add: stop.simps [of nm n])

lemma walk_match: "child (dir_of nm n) n = Some nx \<Longrightarrow> strcmp nm (name nx) = 0 \<Longrightarrow> walk nm n = []"
  by (simp add: walk.simps [of nm n])

lemma stop_match: "child (dir_of nm n) n = Some nx \<Longrightarrow> strcmp nm (name nx) = 0 \<Longrightarrow> stop nm n = n"
  by (simp add: stop.simps [of nm n])

lemma walk_step:
  "child (dir_of nm n) n = Some nx \<Longrightarrow> strcmp nm (name nx) \<noteq> 0 \<Longrightarrow>
     walk nm n = dir_of nm n # walk nm nx"
  by (simp add: walk.simps [of nm n])

lemma stop_step:
  "child (dir_of nm n) n = Some nx \<Longrightarrow> strcmp nm (name nx) \<noteq> 0 \<Longrightarrow> stop nm n = stop nm nx"
  by (simp add: stop.simps [of nm n])

lemma target_None: "child (dir_of nm n) n = None \<Longrightarrow> target nm n = None"
  by (simp add: target_def stop_None)

lemma target_match:
  "child (dir_of nm n) n = Some nx \<Longrightarrow> strcmp nm (name nx) = 0 \<Longrightarrow> target nm n = Some nx"
  by (simp add: target_def stop_match)

lemma target_step:
  "child (dir_of nm n) n = Some nx \<Longrightarrow> strcmp nm (name nx) \<noteq> 0 \<Longrightarrow> target nm n = target nm nx"
  by (simp add: target_def stop_step)

lemma target_name: "target nm n = Some t \<Longrightarrow> strcmp nm (name t) = 0"
proof (induction nm n rule: walk.induct)
  case (1 nm parent)
  show ?case
  proof (cases "child (dir_of nm parent) parent")
    case None
    with "1.prems" show ?thesis by (simp add: target_None)
  next
    case (Some nx)
    show ?thesis
    proof (cases "strcmp nm (name nx) = 0")
      case True
      with Some "1.prems" show ?thesis by (simp add: target_match)
    next
      case False
      with Some "1.prems" "1.IH" [OF Some False] show ?thesis by (simp add: target_step)
    qed
  qed
qed

lemma deref_walk: "deref n (walk nm n) = Some (stop nm n)"
proof (induction nm n rule: walk.induct)
  case (1 nm parent)
  show ?case
  proof (cases "child (dir_of nm parent) parent")
    case None
    then show ?thesis by (simp add: walk_None stop_None)
  next
    case (Some nx)
    show ?thesis
    proof (cases "strcmp nm (name nx) = 0")
      case True
      with Some show ?thesis by (simp add: walk_match stop_match)
    next
      case False
      with Some "1.IH" [OF Some False] show ?thesis by (simp add: walk_step stop_step)
    qed
  qed
qed

text \<open>Attaching a node whose name matches at the place where the descent stopped.\<close>

lemma target_after_attach:
  assumes "target nm n = None" and "strcmp nm (name new) = 0"
  shows "target nm (store n (walk nm n) (set_child (dir_of nm (stop nm n)) (Some new))) = Some new"
  using assms
proof (induction nm n rule: walk.induct)
  case (1 nm parent)
  show ?case
  proof (cases "child (dir_of nm parent) parent")
    case None
    then show ?thesis
      using "1.prems" by (simp add: walk_None stop_None target_match)
  next
    case (Some nx)
    show ?thesis
    proof (cases "strcmp nm (name nx) = 0")
      case True
      with Some "1.prems" show ?thesis by (simp add: target_match)
    next
      case False
      let ?f = "set_child (dir_of nm (stop nm nx)) (Some new)"
      have t: "target nm nx = None"
        using Some False "1.prems" by (simp add: target_step)
      have nm': "name (store nx (walk nm nx) ?f) = name nx"
        by (rule name_store) simp
      have IH: "target nm (store nx (walk nm nx) ?f) = Some new"
        by (rule "1.IH" [OF Some False t "1.prems"(2)])
      have "store parent (walk nm parent) (set_child (dir_of nm (stop nm parent)) (Some new)) =
            set_child (dir_of nm parent) (Some (store nx (walk nm nx) ?f)) parent"
        using Some False by (simp add: walk_step stop_step store_Cons)
      moreover have "target nm (set_child (dir_of nm parent) (Some (store nx (walk nm nx) ?f)) parent) =
            target nm (store nx (walk nm nx) ?f)"
        by (rule target_step) (simp_all add: nm' False)
      ultimately show ?thesis using IH by simp
    qed
  qed
qed

lemma store_noop:
  assumes "target nm n = None"
  shows "store n (walk nm n) (set_child (dir_of nm (stop nm n)) None) = n"
  using assms
proof (induction nm n rule: walk.induct)
  case (1 nm parent)
  show ?case
  proof (cases "child (dir_of nm parent) parent")
    case None
    then show ?thesis
      using set_child_child [of "dir_of nm parent" parent]
      by (simp add: walk_None stop_None del: set_child_child)
  next
    case (Some nx)
    show ?thesis
    proof (cases "strcmp nm (name nx) = 0")
      case True
      with Some "1.prems" show ?thesis by (simp add: target_match)
    next
      case False
      have t: "target nm nx = None"
        using Some False "1.prems" by (simp add: target_step)
      from "1.IH" [OF Some False t] Some False show ?thesis
        using set_child_child [of "dir_of nm parent" parent]
        by (simp add: walk_step stop_step store_Cons del: set_child_child)
    qed
  qed
qed

text \<open>Keys after an insert, and descents for a key and for its prefix.\<close>

lemma keys_Some: "set (keys (Some n)) = insert (name n) (set (keys (lchild n)) \<union> set (keys (rchild n)))"
  by (cases n) auto

lemma keys_child_subset: "child d n = Some c \<Longrightarrow> set (keys (Some c)) \<subseteq> set (keys (Some n))"
  by (cases n; cases d) auto

lemma keys_set_child:
  "set (keys (Some (set_child d c n))) =
     insert (name n) (set (keys c) \<union> set (keys (child (if d = Lc then Rc else Lc) n)))"
  by (cases n; cases d) auto

lemma keys_split:
  "set (keys (Some n)) =
     insert (name n) (set (keys (child d n)) \<union> set (keys (child (if d = Lc then Rc else Lc) n)))"
  by (cases n; cases d) auto

lemma target_in_keys: "target nm n = Some t \<Longrightarrow> name t \<in> set (keys (Some n))"
proof (induction nm n rule: walk.induct)
  case (1 nm parent)
  show ?case
  proof (cases "child (dir_of nm parent) parent")
    case None
    with "1.prems" show ?thesis by (simp add: target_None)
  next
    case (Some nx)
    have sub: "set (keys (Some nx)) \<subseteq> set (keys (Some parent))"
      by (rule keys_child_subset [OF Some])
    have nx: "name nx \<in> set (keys (Some nx))"
      by (simp add: keys_Some)
    show ?thesis
    proof (cases "strcmp nm (name nx) = 0")
      case True
      with Some "1.prems" sub nx show ?thesis by (auto simp: target_match)
    next
      case False
      with Some "1.prems" "1.IH" [OF Some False] sub show ?thesis by (auto simp: target_step)
    qed
  qed
qed

lemma keys_attach:
  assumes "target nm n = None"
  shows "set (keys (Some (store n (walk nm n) (set_child (dir_of nm (stop nm n)) (Some new))))) =
         set (keys (Some new)) \<union> set (keys (Some n))"
  using assms
proof (induction nm n rule: walk.induct)
  case (1 nm parent)
  show ?case
  proof (cases "child (dir_of nm parent) parent")
    case None
    then show ?thesis
      using keys_split [of parent "dir_of nm parent"]
      by (simp add: walk_None stop_None keys_set_child)
  next
    case (Some nx)
    show ?thesis
    proof (cases "strcmp nm (name nx) = 0")
      case True
      with Some "1.prems" show ?thesis by (simp add: target_match)
    next
      case False
      have t: "target nm nx = None"
        using Some False "1.prems" by (simp add: target_step)
      from "1.IH" [OF Some False t] Some False show ?thesis
        using keys_split [of parent "dir_of nm parent"]
        by (auto simp: walk_step stop_step store_Cons keys_set_child)
    qed
  qed
qed

lemma strcmp_prefix_less:
  "length n \<le> length a \<Longrightarrow> (strcmp (a @ e) n < 0) = (strcmp a n < 0)"
proof (induction a n rule: strcmp.induct)
  case 1
  then show ?case by (cases e) simp_all
qed simp_all

lemma dir_of_prefix: "length (name n) \<le> length a \<Longrightarrow> dir_of (a @ e) n = dir_of a n"
  by (simp add: dir_of_def strcmp_prefix_less)

lemma deref_in_keys: "deref n p = Some m \<Longrightarrow> name m \<in> set (keys (Some n))"
proof (induction p arbitrary: n)
  case Nil
  then show ?case by (simp add: keys_Some)
next
  case (Cons d p)
  from Cons.prems obtain c where c: "child d n = Some c" and m: "deref c p = Some m"
    by (auto split: option.splits)
  from Cons.IH [OF m] keys_child_subset [OF c] show ?case by auto
qed

lemma target_too_long:
  assumes "names_bounded head" and "MAXLEN \<le> length k"
  shows "target k head = None"
proof (cases "target k head")
  case None
  then show ?thesis .
next
  case (Some t)
  from target_name [OF Some] have "k = name t"
    by (simp add: strcmp_eq_iff)
  moreover from target_in_keys [OF Some] assms(1) have "length (name t) < MAXLEN"
    by (auto simp: names_bounded_def list_all_iff)
  ultimately show ?thesis using assms(2) by simp
qed

lemma names_bounded_child: "names_bounded n \<Longrightarrow> child d n = Some c \<Longrightarrow> names_bounded c"
  using keys_child_subset [of d n c] by (auto simp: names_bounded_def list_all_iff)

lemma names_bounded_name: "names_bounded n \<Longrightarrow> length (name n) < MAXLEN"
  by (auto simp: names_bounded_def list_all_iff keys_Some)

lemma walk_prefix:
  assumes "names_bounded n" and "target a n = None" and "length a = MAXLEN - 1" and "e \<noteq> []"
  shows "walk (a @ e) n = walk a n \<and> stop (a @ e) n = stop a n"
  using assms
proof (induction a n rule: walk.induct)
  case (1 a parent)
  have d: "dir_of (a @ e) parent = dir_of a parent"
    using names_bounded_name [OF "1.prems"(1)] "1.prems"(3) by (intro dir_of_prefix) simp
  show ?case
  proof (cases "child (dir_of a parent) parent")
    case None
    with d show ?thesis by (simp add: walk_None stop_None)
  next
    case (Some nx)
    have b: "names_bounded nx"
      by (rule names_bounded_child [OF "1.prems"(1) Some])
    have ne: "strcmp (a @ e) (name nx) \<noteq> 0"
    proof
      assume "strcmp (a @ e) (name nx) = 0"
      then have "name nx = a @ e"
        by (simp add: strcmp_eq_iff)
      then have "length (name nx) = length a + length e"
        by simp
      with names_bounded_name [OF b] "1.prems"(3,4) show False
        by (cases e) (simp_all add: MAXLEN_def)
    qed
    show ?thesis
    proof (cases "strcmp a (name nx) = 0")
      case True
      with Some "1.prems" show ?thesis by (simp add: target_match)
    next
      case False
      have t: "target a nx = None"
        using Some False "1.prems" by (simp add: target_step)
      from "1.IH" [OF Some False b t "1.prems"(3,4)] Some False ne d show ?thesis
        by (simp add: walk_step stop_step)
    qed
  qed
qed

lemma names_bounded_attach:
  assumes "target nm n = None" and "names_bounded n" and "names_bounded new"
  shows "names_bounded (store n (walk nm n) (set_child (dir_of nm (stop nm n)) (Some new)))"
  using keys_attach [OF assms(1), of new] assms(2,3)
  by (auto simp: names_bounded_def list_all_iff)

section \<open>The lock calls of the three operations\<close>

lemma held_append: "held hs (es @ fs) = held (held hs es) fs"
  by (induction hs es rule: held.induct) simp_all

lemma coupled_append: "coupled hs (es @ fs) = (coupled hs es \<and> coupled (held hs es) fs)"
  by (induction hs es rule: coupled.induct) auto

lemma max_held_ge: "length hs \<le> max_held hs es"
  by (induction hs es rule: max_held.induct) auto

lemma max_held_append: "max_held hs (es @ fs) = max (max_held hs es) (max_held (held hs es) fs)"
proof (induction hs es rule: max_held.induct)
  case (1 hs)
  from max_held_ge [of hs fs] show ?case by simp
qed auto

lemma search_evs_None:
  "child (dir_of nm n) n = None \<Longrightarrow>
     search_evs nm (q, n) b lk = (if b then [] else [Unlock q])"
  by (simp add: search_evs_def search_unfold del: search.simps)

lemma search_evs_match:
  "child (dir_of nm n) n = Some nx \<Longrightarrow> strcmp nm (name nx) = 0 \<Longrightarrow>
     search_evs nm (q, n) b lk = Lock lk (q @ [dir_of nm n]) # (if b then [] else [Unlock q])"
  by (simp add: search_evs_def search_unfold del: search.simps)

lemma search_evs_step:
  "child (dir_of nm n) n = Some nx \<Longrightarrow> strcmp nm (name nx) \<noteq> 0 \<Longrightarrow>
     search_evs nm (q, n) b lk =
       Lock lk (q @ [dir_of nm n]) # Unlock q # search_evs nm (q @ [dir_of nm n], nx) b lk"
  by (simp add: search_evs_def search_unfold split: prod.splits del: search.simps)

lemma search_locks:
  "coupled [q] (search_evs nm (q, n) b lk) \<and>
   max_held [q] (search_evs nm (q, n) b lk) \<le> 2 \<and>
   held [q] (search_evs nm (q, n) b lk) =
     (case target nm n of None \<Rightarrow> [] | Some t \<Rightarrow> [q @ walk nm n @ [dir_of nm (stop nm n)]]) @
     (if b then [q @ walk nm n] else []) \<and>
   (\<forall>p. Destroy p \<notin> set (search_evs nm (q, n) b lk))"
proof (induction nm n arbitrary: q rule: walk.induct)
  case (1 nm parent)
  show ?case
  proof (cases "child (dir_of nm parent) parent")
    case None
    then show ?thesis
      by (simp add: search_evs_None walk_None stop_None target_None)
  next
    case (Some nx)
    show ?thesis
    proof (cases "strcmp nm (name nx) = 0")
      case True
      with Some show ?thesis
        by (simp add: search_evs_match walk_match stop_match target_match)
    next
      case False
      from "1.IH" [OF Some False, of "q @ [dir_of nm parent]"] Some False show ?thesis
        by (simp add: search_evs_step walk_step stop_step target_step split: option.splits)
    qed
  qed
qed

lemma search_triple:
  "search nm (q, n) b lk =
     (map_option (Pair (q @ walk nm n @ [dir_of nm (stop nm n)])) (target nm n),
      (q @ walk nm n, stop nm n), search_evs nm (q, n) b lk)"
  using search_data [of nm q n b lk]
  by (cases "search nm (q, n) b lk") (auto simp: search_evs_def)

lemma leftmost_locks:
  assumes "leftmost (np, n) pn = ((np', n'), pn', evs)"
  shows "coupled [np, dp] evs \<and> max_held [np, dp] evs \<le> 3 \<and> held [np, dp] evs = [np', dp] \<and>
         (\<forall>p. Destroy p \<notin> set evs) \<and> (\<exists>s. np' = np @ s)"
  using assms
proof (induction "(np, n)" pn arbitrary: np n evs rule: leftmost.induct)
  case (1 np nx pnext)
  show ?case
  proof (cases "lchild nx")
    case None
    with "1.prems" show ?thesis by simp
  next
    case (Some nextl)
    obtain r pn2 evs2 where l: "leftmost (np @ [Lc], nextl) (np, Lc) = (r, pn2, evs2)"
      by (cases "leftmost (np @ [Lc], nextl) (np, Lc)") auto
    from "1.prems" Some l have r: "r = (np', n')" and p: "pn2 = pn'"
      and e: "evs = Lock l_write (np @ [Lc]) # Unlock np # evs2"
      by simp_all
    from "1.hyps" [OF Some l [unfolded r p]] show ?thesis
      unfolding e by auto
  qed
qed

lemma db_query_locks:
  "coupled [] (snd (db_query nm result len head)) \<and>
   held [] (snd (db_query nm result len head)) = [] \<and>
   max_held [] (snd (db_query nm result len head)) \<le> 2 \<and>
   (\<forall>p. Destroy p \<notin> set (snd (db_query nm result len head)))"
proof (cases "target nm head")
  case None
  with search_locks [of "[]" nm head False l_read] show ?thesis
    by (simp add: db_query_def search_triple del: search.simps)
next
  case (Some t)
  with search_locks [of "[]" nm head False l_read] show ?thesis
    by (simp add: db_query_def search_triple coupled_append held_append max_held_append
        del: search.simps)
qed

lemma db_add_locks:
  "coupled [] (snd (snd (db_add flt nm v head))) \<and>
   held [] (snd (snd (db_add flt nm v head))) = [] \<and>
   max_held [] (snd (snd (db_add flt nm v head))) \<le> 2 \<and>
   (\<forall>p. Destroy p \<notin> set (snd (snd (db_add flt nm v head))))"
proof (cases "target nm head")
  case None
  with search_locks [of "[]" nm head True l_write] show ?thesis
    by (simp add: db_add_def search_triple coupled_append held_append max_held_append Let_def
        del: search.simps)
next
  case (Some t)
  with search_locks [of "[]" nm head True l_write] show ?thesis
    by (simp add: db_add_def search_triple coupled_append held_append max_held_append
        del: search.simps)
qed

lemma db_remove_locks:
  "coupled [] (snd (snd (db_remove nm head))) \<and>
   held [] (snd (snd (db_remove nm head))) = [] \<and>
   max_held [] (snd (snd (db_remove nm head))) \<le> 3 \<and>
   Destroy [] \<notin> set (snd (snd (db_remove nm head)))"
proof (cases "target nm head")
  case None
  with search_locks [of "[]" nm head True l_write] show ?thesis
    by (simp add: db_remove_def search_triple coupled_append held_append max_held_append
        del: search.simps)
next
  case (Some dnode)
  note sl = search_locks [of "[]" nm head True l_write]
  let ?pp = "walk nm head"
  let ?dp = "walk nm head @ [dir_of nm (stop nm head)]"
  show ?thesis
  proof (cases "rchild dnode")
    case None
    with Some sl show ?thesis
      by (simp add: db_remove_def search_triple coupled_append held_append max_held_append
          del: search.simps)
  next
    case r: (Some next0)
    show ?thesis
    proof (cases "lchild dnode")
      case None
      with Some r sl show ?thesis
        by (simp add: db_remove_def search_triple coupled_append held_append max_held_append
            del: search.simps)
    next
      case l: (Some l0)
      obtain np n' fp fd evs' where lm:
        "leftmost (?dp @ [Rc], next0) (?dp, Rc) = ((np, n'), (fp, fd), evs')"
        by (cases "leftmost (?dp @ [Rc], next0) (?dp, Rc)") auto
      from leftmost_locks [OF lm, of ?dp] obtain s where
        c: "coupled [?dp @ [Rc], ?dp] evs'" and m: "max_held [?dp @ [Rc], ?dp] evs' \<le> 3" and
        h: "held [?dp @ [Rc], ?dp] evs' = [np, ?dp]" and d: "\<forall>p. Destroy p \<notin> set evs'" and
        np: "np = (?dp @ [Rc]) @ s"
        by auto
      have ev: "snd (snd (db_remove nm head)) =
          Lock l_write [] # search_evs nm ([], head) True l_write @
          [Unlock ?pp, Lock l_write (?dp @ [Rc])] @ evs' @ [Unlock ?dp, Unlock np, Destroy np]"
        using Some r l lm
        by (simp add: db_remove_def search_triple Let_def del: search.simps)
      from Some sl c m h d np show ?thesis
        unfolding ev
        by (simp add: coupled_append held_append max_held_append butlast_append)
    qed
  qed
qed


lemma all_locked_Nil [simp]: "all_locked lk [] es"
  by (simp add: all_locked_def)

lemma all_locked_Cons [simp]:
  "all_locked lk (c # ps) es \<longleftrightarrow> Lock lk c \<in> set es \<and> all_locked lk ps es"
  by (simp add: all_locked_def)

lemma all_locked_append [simp]:
  "all_locked lk (ps @ qs) es \<longleftrightarrow> all_locked lk ps es \<and> all_locked lk qs es"
  by (simp add: all_locked_def)








lemma successor_end_None: "target nm head = None \<Longrightarrow> successor_end nm head = walk nm head"
  by (simp add: successor_end_def search_triple del: search.simps)



lemma name_store_below: "p \<noteq> [] \<Longrightarrow> name (store n p f) = name n"
  by (cases p) (simp_all add: store_Cons)

lemma val_store: "(\<And>m. val (f m) = val m) \<Longrightarrow> val (store n p f) = val n"
  by (cases p) (simp_all add: store_Cons)

lemma val_store_below: "p \<noteq> [] \<Longrightarrow> val (store n p f) = val n"
  by (cases p) (simp_all add: store_Cons)

lemma db_add_payload:
  "name (fst (snd (db_add flt nm v head))) = name head \<and>
   val (fst (snd (db_add flt nm v head))) = val head"
  by (cases "target nm head")
    (simp_all add: db_add_def search_triple Let_def name_store val_store del: search.simps)

lemma db_remove_payload:
  "name (fst (snd (db_remove nm head))) = name head \<and>
   val (fst (snd (db_remove nm head))) = val head"
proof (cases "target nm head")
  case None
  then show ?thesis
    by (simp add: db_remove_def search_triple del: search.simps)
next
  case (Some dnode)
  let ?dp = "walk nm head @ [dir_of nm (stop nm head)]"
  show ?thesis
  proof (cases "rchild dnode")
    case None
    with Some show ?thesis
      by (simp add: db_remove_def search_triple name_store val_store del: search.simps)
  next
    case r: (Some next0)
    show ?thesis
    proof (cases "lchild dnode")
      case None
      with Some r show ?thesis
        by (simp add: db_remove_def search_triple name_store val_store del: search.simps)
    next
      case l: (Some l0)
      obtain np n' fp fd evs' where lm:
        "leftmost (?dp @ [Rc], next0) (?dp, Rc) = ((np, n'), (fp, fd), evs')"
        by (cases "leftmost (?dp @ [Rc], next0) (?dp, Rc)") auto
      from Some r l lm show ?thesis
        by (simp add: db_remove_def search_triple Let_def name_store val_store
            name_store_below val_store_below del: search.simps)
    qed
  qed
qed

lemma addrs_None [simp]: "addrs None = {}"
  by (simp add: addrs_def)

lemma addrs_Node:
  "addrs (Some (Node nm v l r)) = insert [] ((#) Lc ` addrs l \<union> (#) Rc ` addrs r)"
proof (rule set_eqI)
  fix p
  show "p \<in> addrs (Some (Node nm v l r)) \<longleftrightarrow>
        p \<in> insert [] ((#) Lc ` addrs l \<union> (#) Rc ` addrs r)"
  proof (cases p)
    case Nil
    then show ?thesis by (simp add: addrs_def)
  next
    case (Cons d p')
    then show ?thesis
      by (cases d) (auto simp: addrs_def split: option.splits)
  qed
qed

lemma db_cleanup_recurs_set: "set (db_cleanup_recurs q t) = (\<lambda>p. Destroy (q @ p)) ` addrs t"
proof (induction q t rule: db_cleanup_recurs.induct)
  case (1 p)
  then show ?case by simp
next
  case (2 p nm v l r)
  then show ?case
    by (auto simp: addrs_Node image_Un image_image)
qed

lemma db_cleanup_recurs_distinct: "distinct (db_cleanup_recurs q t)"
proof (induction q t rule: db_cleanup_recurs.induct)
  case (1 p)
  then show ?case by simp
next
  case (2 p nm v l r)
  then show ?case
    by (auto simp: db_cleanup_recurs_set)
qed

lemma db_cleanup_frees:
  "set (db_cleanup head) = Destroy ` {p. p \<noteq> [] \<and> deref head p \<noteq> None} \<and>
   distinct (db_cleanup head)"
proof -
  have a: "{p. p \<noteq> [] \<and> deref head p \<noteq> None} =
           (#) Lc ` addrs (lchild head) \<union> (#) Rc ` addrs (rchild head)"
    using addrs_Node [of "name head" "val head" "lchild head" "rchild head"]
    by (auto simp: addrs_def)
  show ?thesis
    unfolding a
    by (auto simp: db_cleanup_def db_cleanup_recurs_set db_cleanup_recurs_distinct image_Un
        image_image)
qed

lemma search_never_head: "map_option fst (fst (search nm ([], head) b lk)) \<noteq> Some []"
  by (cases "target nm head") (simp_all add: search_triple del: search.simps)

section \<open>What db_print writes\<close>

lemma entries_append: "entries (xs @ ys) = entries xs @ entries ys"
  by (induction xs rule: entries.induct) simp_all

lemma entries_print:
  "p \<noteq> [] \<Longrightarrow> entries (fst (db_print_recurs p t lvl)) = preorder t"
proof (induction p t lvl rule: db_print_recurs.induct)
  case (1 p lvl)
  then show ?case by simp
next
  case (2 p nm v l r lvl)
  then show ?case
    by (auto simp: entries_append split: prod.splits)
qed

lemma read_back_print:
  "p \<noteq> [] \<Longrightarrow> length (fst (db_print_recurs p t lvl)) \<le> fuel \<Longrightarrow>
     read_back fuel lvl (fst (db_print_recurs p t lvl) @ rest) = Some (t, rest)"
proof (induction p t lvl arbitrary: fuel rest rule: db_print_recurs.induct)
  case (1 p lvl)
  then show ?case by (cases fuel) simp_all
next
  case (2 p nm v l r lvl)
  obtain outl evl where pl: "db_print_recurs (p @ [Lc]) l (lvl + 1) = (outl, evl)"
    by (cases "db_print_recurs (p @ [Lc]) l (lvl + 1)") auto
  obtain outr evr where pr: "db_print_recurs (p @ [Rc]) r (lvl + 1) = (outr, evr)"
    by (cases "db_print_recurs (p @ [Rc]) r (lvl + 1)") auto
  from "2.prems" pl pr obtain f where f: "fuel = Suc f" and
    ll: "length outl \<le> f" and lr: "length outr \<le> f"
    by (cases fuel) auto
  have a: "read_back f (lvl + 1) (outl @ outr @ rest) = Some (l, outr @ rest)"
    using "2.IH"(1) [of f "outr @ rest"] pl ll by simp
  have b: "read_back f (lvl + 1) (outr @ rest) = Some (r, rest)"
    using "2.IH"(2) [OF pl [symmetric], of f rest] pr lr by simp
  from "2.prems"(1) pl pr a b show ?case
    by (simp add: f)
qed

lemma dump_unfold:
  "dump head = (0, Root_item) # fst (db_print_recurs [Lc] (lchild head) 1) @
     fst (db_print_recurs [Rc] (rchild head) 1)"
  by (cases head) (simp add: dump_def split: prod.splits)

lemma ordered_sorted: "ordered t \<longleftrightarrow> sorted_wrt (\<lambda>a b. strcmp a b < 0) (keys t)"
proof (induction t rule: keys.induct)
  case 1
  then show ?case by simp
next
  case (2 nm v l r)
  from 2 show ?case
    by (auto simp: sorted_wrt_append list_all_iff strcmp_pos_iff strcmp_less_iff)
      (blast intro: less_trans)
qed

lemma db_print_writes:
  "db_print can_open None head =
     (0, Some (Stdout, dump head), Lock l_read [] # snd (db_print_recurs [] (Some head) 0))"
  "db_print can_open (Some fname) head =
     (if dropWhile isspace fname = []
      then (0, Some (Stdout, dump head), Lock l_read [] # snd (db_print_recurs [] (Some head) 0))
      else if can_open (dropWhile isspace fname)
      then (0, Some (File (dropWhile isspace fname), dump head),
            Lock l_read [] # snd (db_print_recurs [] (Some head) 0))
      else (- 1, None, []))"
  by (simp_all add: db_print_def dump_def Let_def split: prod.splits)

lemma dump_entries: "entries (dump head) = preorder (lchild head) @ preorder (rchild head)"
  by (simp add: dump_unfold entries_append entries_print)

lemma dump_read_back:
  assumes "name head = []" and "val head = []"
  shows "read_back (length (dump head)) 0 (dump head) = Some (Some head, [])"
proof -
  let ?outl = "fst (db_print_recurs [Lc] (lchild head) 1)"
  let ?outr = "fst (db_print_recurs [Rc] (rchild head) 1)"
  have a: "read_back (length ?outl + length ?outr) 1 (?outl @ ?outr) =
           Some (lchild head, ?outr)"
    using read_back_print [of "[Lc]" "lchild head" 1 "length ?outl + length ?outr" ?outr]
    by simp
  have b: "read_back (length ?outl + length ?outr) 1 ?outr = Some (rchild head, [])"
    using read_back_print [of "[Rc]" "rchild head" 1 "length ?outl + length ?outr" "[]"]
    by simp
  from a b assms show ?thesis
    by (cases head) (simp add: dump_unfold)
qed

lemma db_ordered_sorted:
  assumes "db_ordered head"
  shows "sorted_wrt (\<lambda>a b. strcmp a b < 0) (keys (lchild head) @ keys (rchild head))"
proof -
  from assms have "\<forall>x\<in>set (keys (lchild head)). \<forall>y\<in>set (keys (rchild head)). x < y"
    by (auto simp: db_ordered_def list_all_iff strcmp_less_iff strcmp_nonneg_iff)
      (blast intro: less_le_trans)
  with assms show ?thesis
    by (simp add: db_ordered_def sorted_wrt_append ordered_sorted strcmp_less_iff)
qed

text \<open>
  The key/value pairs on the lines of a dump are the pre-order traversal of the tree
  below the sentinel. Read back as a pre-order listing, the lines give the tree of the
  map again, so the shape they print is the shape of the map; and in a map that
  satisfies the ordering invariant the keys of that tree, in in-order, are strictly
  increasing.
\<close>

lemma dump_of_ordered_map:
  assumes "name head = []" and "val head = []" and "db_ordered head"
  shows "entries (dump head) = preorder (lchild head) @ preorder (rchild head) \<and>
         read_back (length (dump head)) 0 (dump head) = Some (Some head, []) \<and>
         sorted_wrt (\<lambda>a b. strcmp a b < 0) (keys (lchild head) @ keys (rchild head))"
  using dump_entries [of head] dump_read_back [OF assms(1,2)] db_ordered_sorted [OF assms(3)]
  by simp

section \<open>The replies of interpret_command\<close>

lemma snprintf_fits: "length s < len \<Longrightarrow> snprintf r len s = s"
  by (simp add: snprintf_def)

lemma take_not_ill:
  assumes "CHR '' '' \<notin> set v"
  shows "take n v \<noteq> ''ill-formed command''"
proof
  assume "take n v = ''ill-formed command''"
  then have "CHR '' '' \<in> set (take n v)"
    by simp
  with assms show False
    by (auto dest: in_set_takeD)
qed

lemma preorder_child_subset:
  "child d n = Some c \<Longrightarrow> set (preorder (Some c)) \<subseteq> set (preorder (lchild n) @ preorder (rchild n))"
  by (cases n; cases d) auto

lemma preorder_Some: "preorder (Some n) = (name n, val n) # preorder (lchild n) @ preorder (rchild n)"
  by (cases n) simp

lemma target_in_entries:
  "target nm n = Some t \<Longrightarrow> (name t, val t) \<in> set (preorder (lchild n) @ preorder (rchild n))"
proof (induction nm n rule: walk.induct)
  case (1 nm parent)
  show ?case
  proof (cases "child (dir_of nm parent) parent")
    case None
    with "1.prems" show ?thesis by (simp add: target_None)
  next
    case (Some nx)
    note sub = preorder_child_subset [OF Some]
    show ?thesis
    proof (cases "strcmp nm (name nx) = 0")
      case True
      with Some "1.prems" have "t = nx" by (simp add: target_match)
      with sub show ?thesis by (auto simp: preorder_Some)
    next
      case False
      with Some "1.prems" have "target nm nx = Some t" by (simp add: target_step)
      from "1.IH" [OF Some False this] sub show ?thesis
        by (auto simp: preorder_Some)
    qed
  qed
qed

lemma query_reply_not_ill:
  assumes "20 \<le> len"
    and "list_all (\<lambda>(k, v). take (len - 1) v \<noteq> ''ill-formed command'')
           (preorder (lchild head) @ preorder (rchild head))"
  shows "fst (db_query nm response len head) \<noteq> ''ill-formed command''"
proof (cases "target nm head")
  case None
  with assms(1) show ?thesis
    by (simp add: db_query_lookup lookup_target snprintf_fits)
next
  case (Some t)
  from target_in_entries [OF Some] assms(2) have "take (len - 1) (val t) \<noteq> ''ill-formed command''"
    by (auto simp: list_all_iff)
  with Some assms(1) show ?thesis
    by (simp add: db_query_lookup lookup_target snprintf_def)
qed

lemma ill_formed_reply:
  assumes "20 \<le> len"
    and "list_all (\<lambda>(k, v). take (len - 1) v \<noteq> ''ill-formed command'')
           (preorder (lchild head) @ preorder (rchild head))"
  shows "(ill_formed command \<longrightarrow>
            interpret_command (Suc n) fs command response len (head, flts) =
              Some (''ill-formed command'', head, flts)) \<and>
         (\<not> ill_formed command \<longrightarrow>
            (\<forall>reply st. interpret_command fuel fs command response len (head, flts) = Some (reply, st)
               \<longrightarrow> reply \<noteq> ''ill-formed command''))"
proof (intro conjI impI allI)
  assume ill: "ill_formed command"
  have r: "snprintf response len ''ill-formed command'' = ''ill-formed command''"
    using assms(1) by (simp add: snprintf_fits)
  show "interpret_command (Suc n) fs command response len (head, flts) =
          Some (''ill-formed command'', head, flts)"
  proof (cases command)
    case Nil
    then show ?thesis using r by simp
  next
    case (Cons c rest)
    show ?thesis
    proof (cases rest)
      case Nil
      with Cons show ?thesis using r by simp
    next
      case (Cons c1 cs)
      with \<open>command = c # rest\<close> ill show ?thesis
        using r by (auto simp: ill_formed_def split: if_splits)
    qed
  qed
next
  fix reply st
  assume ok: "\<not> ill_formed command"
    and run: "interpret_command fuel fs command response len (head, flts) = Some (reply, st)"
  from ok obtain c c1 cs where cmd: "command = c # c1 # cs"
    by (cases command; cases "tl command") (auto simp: ill_formed_def)
  from run obtain m where fuel: "fuel = Suc m"
    by (cases fuel) auto
  have q: "fst (db_query nm response len head) \<noteq> ''ill-formed command''" for nm
    by (rule query_reply_not_ill [OF assms])
  have nf: "snprintf r len ''not found'' \<noteq> ''ill-formed command''" for r
    using assms(1) by (simp add: snprintf_fits)
  have ad: "snprintf r len ''added'' \<noteq> ''ill-formed command''" for r
    using assms(1) by (simp add: snprintf_fits)
  have al: "snprintf r len ''already in database'' \<noteq> ''ill-formed command''" for r
  proof -
    from assms(1) obtain k where "len - 1 = Suc k"
      by (cases "len - 1") auto
    with assms(1) show ?thesis
      by (simp add: snprintf_def)
  qed
  have rm: "snprintf r len ''removed'' \<noteq> ''ill-formed command''" for r
    using assms(1) by (simp add: snprintf_fits)
  have ni: "snprintf r len ''not in database'' \<noteq> ''ill-formed command''" for r
    using assms(1) by (simp add: snprintf_fits)
  have bf: "snprintf r len ''bad file name'' \<noteq> ''ill-formed command''" for r
    using assms(1) by (simp add: snprintf_fits)
  have fp: "snprintf r len ''file processed'' \<noteq> ''ill-formed command''" for r
    using assms(1) by (simp add: snprintf_fits)
  from ok cmd have cases:
    "(c = CHR ''q'' \<and> sscanf_1 (c1 # cs) \<noteq> None) \<or>
     (c = CHR ''a'' \<and> sscanf_2 (c1 # cs) \<noteq> None) \<or>
     (c = CHR ''d'' \<and> sscanf_1 (c1 # cs) \<noteq> None) \<or>
     (c = CHR ''f'' \<and> sscanf_1 (c1 # cs) \<noteq> None)"
    by (auto simp: ill_formed_def split: if_splits)
  then show "reply \<noteq> ''ill-formed command''"
  proof (elim disjE conjE)
    assume c: "c = CHR ''q''" and "sscanf_1 (c1 # cs) \<noteq> None"
    then obtain nm where s: "sscanf_1 (c1 # cs) = Some nm"
      by auto
    from run have "reply = (if length (fst (db_query nm response len head)) = 0
        then snprintf (fst (db_query nm response len head)) len ''not found''
        else fst (db_query nm response len head))"
      unfolding cmd fuel c by (simp add: s Let_def)
    with q [of nm] nf show ?thesis
      by (cases "length (fst (db_query nm response len head)) = 0") simp_all
  next
    assume c: "c = CHR ''a''" and "sscanf_2 (c1 # cs) \<noteq> None"
    then obtain nm v where s: "sscanf_2 (c1 # cs) = Some (nm, v)"
      by auto
    obtain ret head' evs where a: "db_add (next_fault flts) nm v head = (ret, head', evs)"
      by (cases "db_add (next_fault flts) nm v head") auto
    from run have "reply = (if ret \<noteq> 0 then snprintf response len ''added''
        else snprintf response len ''already in database'')"
      unfolding cmd fuel c by (simp add: s a)
    with ad al show ?thesis
      by (cases "ret = 0") simp_all
  next
    assume c: "c = CHR ''d''" and "sscanf_1 (c1 # cs) \<noteq> None"
    then obtain nm where s: "sscanf_1 (c1 # cs) = Some nm"
      by auto
    obtain ret head' evs where a: "db_remove nm head = (ret, head', evs)"
      by (cases "db_remove nm head") auto
    from run have "reply = (if ret \<noteq> 0 then snprintf response len ''removed''
        else snprintf response len ''not in database'')"
      unfolding cmd fuel c by (simp add: s a)
    with rm ni show ?thesis
      by (cases "ret = 0") simp_all
  next
    assume c: "c = CHR ''f''" and "sscanf_1 (c1 # cs) \<noteq> None"
    then obtain nm where s: "sscanf_1 (c1 # cs) = Some nm"
      by auto
    show ?thesis
    proof (cases "fs nm")
      case None
      from run have "reply = snprintf response len ''bad file name''"
        unfolding cmd fuel c by (simp add: s None)
      with bf show ?thesis by simp
    next
      case (Some bytes)
      show ?thesis
      proof (cases "interpret_lines m fs (fgets_loop bytes) response len (head, flts)")
        case None
        with run show ?thesis
          unfolding cmd fuel c by (simp add: s Some)
      next
        case r: (Some res)
        obtain response' head' flts' where res: "res = (response', head', flts')"
          by (cases res) auto
        from run have "reply = snprintf response' len ''file processed''"
          unfolding cmd fuel c by (simp add: s Some r res)
        with fp show ?thesis by simp
      qed
    qed
  qed
qed

lemma query_dispatch:
  assumes "20 \<le> len" and "sscanf_1 (c1 # cs) = Some nm"
  shows "interpret_command (Suc n) fs (CHR ''q'' # c1 # cs) response len (head, flts) =
           Some (case lookup nm head of
                   None \<Rightarrow> ''not found''
                 | Some v \<Rightarrow> if take (len - 1) v = [] then ''not found'' else take (len - 1) v,
                 head, flts)"
  using assms
  by (cases "lookup nm head") (simp_all add: db_query_lookup Let_def snprintf_def)

lemma add_dispatch:
  assumes "20 \<le> len" and "sscanf_2 (c1 # cs) = Some (nm, v)"
  shows "interpret_command (Suc n) fs (CHR ''a'' # c1 # cs) response len (head, flts) =
           Some (if fst (db_add (next_fault flts) nm v head) \<noteq> 0 then ''added''
                 else ''already in database'',
                 fst (snd (db_add (next_fault flts) nm v head)), tl flts)"
  using assms
  by (cases "db_add (next_fault flts) nm v head") (simp add: snprintf_def)

lemma remove_dispatch:
  assumes "20 \<le> len" and "sscanf_1 (c1 # cs) = Some nm"
  shows "interpret_command (Suc n) fs (CHR ''d'' # c1 # cs) response len (head, flts) =
           Some (if fst (db_remove nm head) \<noteq> 0 then ''removed'' else ''not in database'',
                 fst (snd (db_remove nm head)), flts)"
  using assms
  by (cases "db_remove nm head") (simp add: snprintf_def)

section \<open>Removal, and what the operations preserve\<close>

lemma store_append: "store n (p @ q) f = store n p (\<lambda>m. store m q f)"
proof (induction p arbitrary: n)
  case Nil
  then show ?case by simp
next
  case (Cons d p)
  then show ?case by (simp add: store_Cons)
qed

lemma store_store: "store (store n p f) p g = store n p (\<lambda>m. g (f m))"
proof (induction p arbitrary: n)
  case Nil
  then show ?case by simp
next
  case (Cons d p)
  have "set_child d c (set_child d c' m) = set_child d c m" for c c' m
    by (cases m; cases d) simp_all
  with Cons show ?case
    by (simp add: store_Cons option.map_comp comp_def)
qed

lemma store_cong_at:
  "deref n p = Some m \<Longrightarrow> f m = g m \<Longrightarrow> store n p f = store n p g"
proof (induction p arbitrary: n)
  case Nil
  then show ?case by simp
next
  case (Cons d p)
  then show ?case
    by (auto simp: store_Cons split: option.splits)
qed

lemma leftmost_data:
  assumes "leftmost (np, n) (fp0, fd0) = ((np', n'), (fp, fd), evs)"
  shows "n' = lmost n \<and>
         (case lchild n of
            None \<Rightarrow> fp = fp0 \<and> fd = fd0
          | Some c \<Rightarrow>
              fd = Lc \<and>
              (\<exists>rel. fp = np @ rel \<and>
                 Some (store n rel (set_child Lc (rchild (lmost n)))) = splice_min n))"
  using assms
proof (induction "(np, n)" "(fp0, fd0)" arbitrary: np n fp0 fd0 evs rule: leftmost.induct)
  case (1 np nx)
  show ?case
  proof (cases "lchild nx")
    case None
    then have "lmost nx = nx"
      by (simp add: lmost.simps [of nx])
    with None "1.prems" show ?thesis
      by simp
  next
    case (Some c)
    obtain r pn2 evs2 where l: "leftmost (np @ [Lc], c) (np, Lc) = (r, pn2, evs2)"
      by (cases "leftmost (np @ [Lc], c) (np, Lc)") auto
    from "1.prems" Some l have r: "r = (np', n')" and p: "pn2 = (fp, fd)"
      by simp_all
    note IH = "1.hyps" [OF Some l [unfolded r p]]
    have lm: "lmost nx = lmost c"
      using Some by (simp add: lmost.simps [of nx])
    have sm: "splice_min nx = Some (set_child Lc (splice_min c) nx)"
      using Some by (simp add: splice_min.simps [of nx])
    show ?thesis
    proof (cases "lchild c")
      case None
      with IH have "n' = lmost c" and "fp = np" and "fd = Lc"
        by simp_all
      moreover have "splice_min c = rchild c" "lmost c = c"
        using None by (simp_all add: splice_min.simps [of c] lmost.simps [of c])
      ultimately show ?thesis
        using Some lm sm by (auto intro: exI [of _ "[]"])
    next
      case cc: (Some c2)
      with IH obtain rel where "n' = lmost c" and "fd = Lc" and "fp = (np @ [Lc]) @ rel"
        and s: "Some (store c rel (set_child Lc (rchild (lmost c)))) = splice_min c"
        by auto
      then show ?thesis
        using Some lm sm s [symmetric]
        by (auto simp: store_Cons intro!: exI [of _ "Lc # rel"])
    qed
  qed
qed

lemma target_child: "target nm n = Some t \<Longrightarrow> child (dir_of nm (stop nm n)) (stop nm n) = Some t"
  by (simp add: target_def)

lemma target_dir:
  assumes "target nm n = Some t"
  shows "dir_of (name t) (stop nm n) = dir_of nm (stop nm n)"
proof -
  from target_name [OF assms] have "nm = name t"
    by (simp add: strcmp_eq_iff)
  then show ?thesis by simp
qed

lemma store_child:
  assumes "deref n p = Some par" and "child d par = Some m"
  shows "store n (p @ [d]) f = store n p (set_child d (Some (f m)))"
proof -
  have "store n (p @ [d]) f = store n p (\<lambda>x. store x [d] f)"
    by (rule store_append)
  also have "\<dots> = store n p (set_child d (Some (f m)))"
    by (rule store_cong_at [OF assms(1)]) (simp add: store_Cons assms(2))
  finally show ?thesis .
qed

lemma db_remove_ret: "fst (db_remove nm head) = (if target nm head = None then 0 else 1)"
proof (cases "target nm head")
  case None
  then show ?thesis
    by (simp add: db_remove_def search_triple del: search.simps)
next
  case (Some dnode)
  let ?dp = "walk nm head @ [dir_of nm (stop nm head)]"
  obtain np n' fp fd evs' where lm:
    "leftmost (?dp @ [Rc], the (rchild dnode)) (?dp, Rc) = ((np, n'), (fp, fd), evs')"
    by (cases "leftmost (?dp @ [Rc], the (rchild dnode)) (?dp, Rc)") auto
  from Some lm show ?thesis
    by (cases "rchild dnode"; cases "lchild dnode")
      (simp_all add: db_remove_def search_triple Let_def del: search.simps)
qed

lemma db_remove_tree:
  "fst (snd (db_remove nm head)) =
     (case target nm head of
        None \<Rightarrow> head
      | Some dnode \<Rightarrow>
          store head (walk nm head) (set_child (dir_of nm (stop nm head)) (remove_root dnode)))"
proof (cases "target nm head")
  case None
  then show ?thesis
    by (simp add: db_remove_def search_triple del: search.simps)
next
  case (Some dnode)
  let ?pp = "walk nm head"
  let ?d = "dir_of nm (stop nm head)"
  let ?dp = "?pp @ [?d]"
  have dir: "name dnode = nm"
    using target_name [OF Some] by (simp add: strcmp_eq_iff)
  show ?thesis
  proof (cases "rchild dnode")
    case None
    with Some dir show ?thesis
      by (simp add: db_remove_def search_triple remove_root_def dir_of_def del: search.simps)
  next
    case r: (Some next0)
    show ?thesis
    proof (cases "lchild dnode")
      case None
      with Some r dir show ?thesis
        by (simp add: db_remove_def search_triple remove_root_def dir_of_def del: search.simps)
    next
      case l: (Some l0)
      obtain np n' fp fd evs' where lm:
        "leftmost (?dp @ [Rc], next0) (?dp, Rc) = ((np, n'), (fp, fd), evs')"
        by (cases "leftmost (?dp @ [Rc], next0) (?dp, Rc)") auto
      let ?a = "snprintf (name dnode) MAXLEN (name n')"
      let ?b = "snprintf (val dnode) MAXLEN (val n')"
      let ?spl = "set_child fd (rchild n')"
      have tree: "fst (snd (db_remove nm head)) =
          store (store head ?dp (set_payload ?a ?b)) fp ?spl"
        using Some r l lm
        by (simp add: db_remove_def search_triple Let_def del: search.simps)
      note ld = leftmost_data [OF lm]
      then have n': "n' = lmost next0" by simp
      have pay: "set_payload a b dnode = Node a b (Some l0) (Some next0)" for a b
        using r l by (cases dnode) simp
      have "\<exists>F. store (store head ?dp (set_payload ?a ?b)) fp ?spl = store head ?dp F \<and>
                F dnode = Node ?a ?b (Some l0) (splice_min next0)"
      proof (cases "lchild next0")
        case None
        with ld have fp: "fp = ?dp" and fd: "fd = Rc"
          by simp_all
        have sm: "splice_min next0 = rchild next0" and lmn: "lmost next0 = next0"
          using None by (simp_all add: splice_min.simps [of next0] lmost.simps [of next0])
        show ?thesis
          unfolding fp fd store_store
          by (rule exI [of _ "\<lambda>m. set_child Rc (rchild n') (set_payload ?a ?b m)"])
            (simp add: pay sm n' lmn)
      next
        case (Some c)
        with ld obtain rel where fd: "fd = Lc" and fp: "fp = (?dp @ [Rc]) @ rel"
          and sm: "Some (store next0 rel (set_child Lc (rchild (lmost next0)))) = splice_min next0"
          by auto
        have fp': "fp = ?dp @ (Rc # rel)"
          using fp by simp
        show ?thesis
          unfolding fp' fd store_append [of _ ?dp] store_store
          by (rule exI [of _ "\<lambda>m. store (set_payload ?a ?b m) (Rc # rel) (set_child Lc (rchild n'))"])
            (simp add: pay store_Cons n' sm)
      qed
      then obtain F where F1: "store (store head ?dp (set_payload ?a ?b)) fp ?spl = store head ?dp F"
        and F2: "F dnode = Node ?a ?b (Some l0) (splice_min next0)"
        by blast
      have "store head ?dp F = store head ?pp (set_child ?d (Some (F dnode)))"
        by (rule store_child [OF deref_walk target_child [OF Some]])
      with tree F1 F2 Some r l n' show ?thesis
        by (simp add: remove_root_def)
    qed
  qed
qed

lemma keys_by_side:
  "set (keys (Some n)) = insert (name n) (set (keys (child d n)) \<union> set (keys (child (other d) n)))"
  by (cases n; cases d) (auto simp: other_def)

lemma keys_set_child_side:
  "set (keys (Some (set_child d c n))) =
     insert (name n) (set (keys c) \<union> set (keys (child (other d) n)))"
  by (cases n; cases d) (auto simp: other_def)

lemma ordered_by_side:
  "ordered (Some n) =
     ((\<forall>k\<in>set (keys (child d n)). fits True d k n) \<and> ordered (child d n) \<and>
      (\<forall>k\<in>set (keys (child (other d) n)). fits True (other d) k n) \<and>
      ordered (child (other d) n))"
  by (cases n; cases d) (auto simp: other_def fits_def list_all_iff)

lemma ordered_set_child:
  "ordered (Some (set_child d c n)) =
     ((\<forall>k\<in>set (keys c). fits True d k n) \<and> ordered c \<and>
      (\<forall>k\<in>set (keys (child (other d) n)). fits True (other d) k n) \<and>
      ordered (child (other d) n))"
  by (cases n; cases d) (auto simp: other_def fits_def list_all_iff)

lemma db_ordered_by_side:
  "db_ordered n =
     ((\<forall>k\<in>set (keys (child d n)). fits False d k n) \<and> ordered (child d n) \<and>
      (\<forall>k\<in>set (keys (child (other d) n)). fits False (other d) k n) \<and>
      ordered (child (other d) n))"
  by (cases n; cases d) (auto simp: other_def fits_def list_all_iff db_ordered_def)

lemma db_ordered_set_child:
  "db_ordered (set_child d c n) =
     ((\<forall>k\<in>set (keys c). fits False d k n) \<and> ordered c \<and>
      (\<forall>k\<in>set (keys (child (other d) n)). fits False (other d) k n) \<and>
      ordered (child (other d) n))"
  by (cases n; cases d) (auto simp: other_def fits_def list_all_iff db_ordered_def)

lemma fits_dir_strict: "strcmp nm (name n) \<noteq> 0 \<Longrightarrow> fits True (dir_of nm n) nm n"
  by (auto simp: fits_def dir_of_def)

lemma fits_dir: "fits False (dir_of nm n) nm n"
  by (auto simp: fits_def dir_of_def)

lemma ordered_replace:
  assumes "ordered (Some n)" and "strcmp nm (name n) \<noteq> 0" and "ordered c'"
    and "set (keys c') \<subseteq> insert nm (set (keys (target nm n)))"
  shows "ordered (Some (store n (walk nm n) (set_child (dir_of nm (stop nm n)) c'))) \<and>
         set (keys (Some (store n (walk nm n) (set_child (dir_of nm (stop nm n)) c')))) \<subseteq>
           insert nm (set (keys (Some n)))"
  using assms
proof (induction nm n rule: walk.induct)
  case (1 nm parent)
  let ?d = "dir_of nm parent"
  note ord = "1.prems"(1) [unfolded ordered_by_side [of parent ?d]]
  note fit = fits_dir_strict [OF "1.prems"(2)]
  show ?case
  proof (cases "child ?d parent")
    case None
    with "1.prems"(3,4) ord fit show ?thesis
      by (auto simp: walk_None stop_None target_None ordered_set_child keys_set_child_side
          keys_by_side [of parent ?d])
  next
    case (Some nx)
    show ?thesis
    proof (cases "strcmp nm (name nx) = 0")
      case True
      with Some "1.prems"(3,4) ord fit show ?thesis
        by (auto simp: walk_match stop_match target_match ordered_set_child keys_set_child_side
            keys_by_side [of parent ?d])
    next
      case False
      let ?nx' = "store nx (walk nm nx) (set_child (dir_of nm (stop nm nx)) c')"
      have t: "target nm parent = target nm nx"
        using Some False by (simp add: target_step)
      from ord Some have onx: "ordered (Some nx)"
        by simp
      from "1.IH" [OF Some False onx False "1.prems"(3) "1.prems"(4) [unfolded t]]
      have o': "ordered (Some ?nx')" and k': "set (keys (Some ?nx')) \<subseteq> insert nm (set (keys (Some nx)))"
        by simp_all
      have st: "store parent (walk nm parent) (set_child (dir_of nm (stop nm parent)) c') =
                set_child ?d (Some ?nx') parent"
        using Some False by (simp add: walk_step stop_step store_Cons)
      from o' k' ord fit Some show ?thesis
        unfolding st
        by (auto simp: ordered_set_child keys_set_child_side keys_by_side [of parent ?d])
    qed
  qed
qed

lemma db_ordered_replace:
  assumes "db_ordered head" and "ordered c'"
    and "set (keys c') \<subseteq> insert nm (set (keys (target nm head)))"
  shows "db_ordered (store head (walk nm head) (set_child (dir_of nm (stop nm head)) c'))"
proof -
  let ?d = "dir_of nm head"
  note ord = assms(1) [unfolded db_ordered_by_side [of head ?d]]
  note fit = fits_dir [of nm head]
  show ?thesis
  proof (cases "child ?d head")
    case None
    with assms(2,3) ord fit show ?thesis
      by (auto simp: walk_None stop_None target_None db_ordered_set_child)
  next
    case (Some nx)
    show ?thesis
    proof (cases "strcmp nm (name nx) = 0")
      case True
      with Some assms(2,3) ord fit show ?thesis
        by (auto simp: walk_match stop_match target_match db_ordered_set_child)
    next
      case False
      let ?nx' = "store nx (walk nm nx) (set_child (dir_of nm (stop nm nx)) c')"
      have t: "target nm head = target nm nx"
        using Some False by (simp add: target_step)
      from ord Some have onx: "ordered (Some nx)"
        by simp
      from ordered_replace [OF onx False assms(2) assms(3) [unfolded t]]
      have o': "ordered (Some ?nx')" and k': "set (keys (Some ?nx')) \<subseteq> insert nm (set (keys (Some nx)))"
        by simp_all
      have st: "store head (walk nm head) (set_child (dir_of nm (stop nm head)) c') =
                set_child ?d (Some ?nx') head"
        using Some False by (simp add: walk_step stop_step store_Cons)
      from o' k' ord fit Some show ?thesis
        unfolding st
        by (auto simp: db_ordered_set_child)
    qed
  qed
qed

lemma lmost_None: "lchild n = None \<Longrightarrow> lmost n = n"
  by (simp add: lmost.simps [of n])

lemma lmost_Some: "lchild n = Some c \<Longrightarrow> lmost n = lmost c"
  by (simp add: lmost.simps [of n])

lemma splice_min_None: "lchild n = None \<Longrightarrow> splice_min n = rchild n"
  by (simp add: splice_min.simps [of n])

lemma splice_min_Some: "lchild n = Some c \<Longrightarrow> splice_min n = Some (set_child Lc (splice_min c) n)"
  by (simp add: splice_min.simps [of n])

lemma keys_lmost_splice: "keys (Some n) = name (lmost n) # keys (splice_min n)"
proof (induction n rule: lmost.induct)
  case (1 n)
  show ?case
  proof (cases "lchild n")
    case None
    from lmost_None [OF None] splice_min_None [OF None] None show ?thesis
      by (cases n) simp
  next
    case (Some c)
    from "1.IH" [OF Some] lmost_Some [OF Some] splice_min_Some [OF Some] Some show ?thesis
      by (cases n) simp
  qed
qed

lemma preorder_lmost_splice:
  "set (preorder (Some n)) = insert (name (lmost n), val (lmost n)) (set (preorder (splice_min n)))"
proof (induction n rule: lmost.induct)
  case (1 n)
  show ?case
  proof (cases "lchild n")
    case None
    from lmost_None [OF None] splice_min_None [OF None] None show ?thesis
      by (cases n) simp
  next
    case (Some c)
    from "1.IH" [OF Some] lmost_Some [OF Some] splice_min_Some [OF Some] Some show ?thesis
      by (cases n) auto
  qed
qed

lemma snprintf_MAXLEN: "length s < MAXLEN \<Longrightarrow> snprintf b MAXLEN s = s"
  by (simp add: snprintf_def MAXLEN_def)

lemma snprintf_MAXLEN_take: "snprintf b MAXLEN s = take 255 s"
  by (simp add: snprintf_def MAXLEN_def)

lemma keys_remove_root:
  assumes "names_bounded dnode"
  shows "keys (remove_root dnode) = keys (lchild dnode) @ keys (rchild dnode)"
proof (cases "rchild dnode")
  case None
  then show ?thesis by (simp add: remove_root_def)
next
  case r: (Some r)
  show ?thesis
  proof (cases "lchild dnode")
    case None
    with r show ?thesis by (simp add: remove_root_def)
  next
    case (Some l)
    have "name (lmost r) \<in> set (keys (Some dnode))"
      using keys_lmost_splice [of r] keys_Some [of dnode] r by simp
    with assms have "length (name (lmost r)) < MAXLEN"
      by (auto simp: names_bounded_def list_all_iff)
    with r Some keys_lmost_splice [of r] show ?thesis
      by (simp add: remove_root_def snprintf_MAXLEN)
  qed
qed

lemma ordered_remove_root:
  assumes "names_bounded dnode" and "ordered (Some dnode)"
  shows "ordered (remove_root dnode)"
proof -
  have k: "keys (Some dnode) = keys (lchild dnode) @ name dnode # keys (rchild dnode)"
    by (cases dnode) simp
  from assms(2) have "sorted_wrt (\<lambda>a b. strcmp a b < 0) (keys (lchild dnode) @ keys (rchild dnode))"
    unfolding ordered_sorted k by (auto simp: sorted_wrt_append)
  then show ?thesis
    by (simp add: ordered_sorted keys_remove_root [OF assms(1)])
qed

lemma deref_keys_subset: "deref n p = Some m \<Longrightarrow> set (keys (Some m)) \<subseteq> set (keys (Some n))"
proof (induction p arbitrary: n)
  case Nil
  then show ?case by simp
next
  case (Cons d p)
  from Cons.prems obtain c where c: "child d n = Some c" and m: "deref c p = Some m"
    by (auto split: option.splits)
  from Cons.IH [OF m] keys_child_subset [OF c] show ?case by auto
qed

lemma names_bounded_target:
  assumes "names_bounded head" and "target nm head = Some t"
  shows "names_bounded t"
proof -
  have "set (keys (Some t)) \<subseteq> set (keys (Some (stop nm head)))"
    by (rule keys_child_subset [OF target_child [OF assms(2)]])
  moreover have "set (keys (Some (stop nm head))) \<subseteq> set (keys (Some head))"
    by (rule deref_keys_subset [OF deref_walk])
  ultimately show ?thesis
    using assms(1) by (auto simp: names_bounded_def list_all_iff)
qed

lemma ordered_target:
  assumes "db_ordered head" and "target nm head = Some t"
  shows "ordered (Some t)"
  using assms
proof -
  have sub: "ordered (Some n) \<Longrightarrow> target nm n = Some t \<Longrightarrow> ordered (Some t)" for n
  proof (induction nm n rule: walk.induct)
    case (1 nm parent)
    let ?d = "dir_of nm parent"
    note ord = "1.prems"(1) [unfolded ordered_by_side [of parent ?d]]
    show ?case
    proof (cases "child ?d parent")
      case None
      with "1.prems" show ?thesis by (simp add: target_None)
    next
      case (Some nx)
      show ?thesis
      proof (cases "strcmp nm (name nx) = 0")
        case True
        with Some "1.prems" ord show ?thesis by (simp add: target_match)
      next
        case False
        with Some "1.prems" ord "1.IH" [OF Some False] show ?thesis by (simp add: target_step)
      qed
    qed
  qed
  let ?d = "dir_of nm head"
  note ord = assms(1) [unfolded db_ordered_by_side [of head ?d]]
  show ?thesis
  proof (cases "child ?d head")
    case None
    with assms show ?thesis by (simp add: target_None)
  next
    case (Some nx)
    show ?thesis
    proof (cases "strcmp nm (name nx) = 0")
      case True
      with Some assms ord show ?thesis by (simp add: target_match)
    next
      case False
      with Some assms ord sub [of nx] show ?thesis by (simp add: target_step)
    qed
  qed
qed

text \<open>
  \<open>db_add\<close> keeps the map ordered for every key but those of exactly \<open>MAXLEN\<close> bytes: a
  longer key is refused by \<open>node_constructor\<close>, a shorter one is stored whole.
\<close>

lemma db_add_ordered:
  assumes "db_ordered head" and "length nm \<noteq> MAXLEN"
  shows "db_ordered (fst (snd (db_add flt nm v head)))"
proof (cases "target nm head")
  case None
  let ?c = "node_constructor flt nm v None None"
  have "ordered ?c \<and> set (keys ?c) \<subseteq> insert nm (set (keys (target nm head)))"
    using assms(2) by (auto simp: node_constructor_def snprintf_MAXLEN Let_def)
  with db_ordered_replace [OF assms(1), of ?c nm] db_add_absent(2) [OF None, of flt v]
  show ?thesis by simp
next
  case (Some t)
  with assms(1) show ?thesis by (simp add: db_add_found)
qed

text \<open>\<open>db_remove\<close> keeps the map ordered.\<close>

lemma db_remove_ordered:
  assumes "db_ordered head" and "names_bounded head"
  shows "db_ordered (fst (snd (db_remove nm head)))"
proof (cases "target nm head")
  case None
  with assms(1) show ?thesis by (simp add: db_remove_tree)
next
  case (Some dnode)
  note nb = names_bounded_target [OF assms(2) Some]
  have o: "ordered (remove_root dnode)"
    by (rule ordered_remove_root [OF nb ordered_target [OF assms(1) Some]])
  have "set (keys (remove_root dnode)) \<subseteq> set (keys (Some dnode))"
    using keys_remove_root [OF nb] keys_Some [of dnode] by auto
  with Some have k: "set (keys (remove_root dnode)) \<subseteq> insert nm (set (keys (target nm head)))"
    by auto
  from db_ordered_replace [OF assms(1) o k] Some show ?thesis
    by (simp add: db_remove_tree)
qed

lemma pairs_by_side:
  "set (preorder (Some n)) =
     insert (name n, val n) (set (preorder (child d n)) \<union> set (preorder (child (other d) n)))"
  by (cases n; cases d) (auto simp: other_def)

lemma pairs_set_child:
  "set (preorder (Some (set_child d c n))) =
     insert (name n, val n) (set (preorder c) \<union> set (preorder (child (other d) n)))"
  by (cases n; cases d) (auto simp: other_def)

lemma keys_pairs: "set (keys t) = fst ` set (preorder t)"
  by (induction t rule: keys.induct) (auto simp: image_Un)

lemma pairs_store:
  assumes "\<And>m. set (preorder (Some (f m))) \<subseteq> S \<union> set (preorder (Some m))"
  shows "set (preorder (Some (store n p f))) \<subseteq> S \<union> set (preorder (Some n))"
proof (induction p arbitrary: n)
  case Nil
  then show ?case using assms by simp
next
  case (Cons d p)
  show ?case
  proof (cases "child d n")
    case None
    then show ?thesis
      by (auto simp: store_Cons pairs_set_child pairs_by_side [of n d])
  next
    case (Some c)
    with Cons [of c] show ?thesis
      by (auto simp: store_Cons pairs_set_child pairs_by_side [of n d])
  qed
qed

lemma pairs_replace:
  "set (preorder (Some (store n p (set_child d c)))) \<subseteq> set (preorder c) \<union> set (preorder (Some n))"
proof (rule pairs_store)
  fix m
  show "set (preorder (Some (set_child d c m))) \<subseteq> set (preorder c) \<union> set (preorder (Some m))"
    unfolding pairs_set_child using pairs_by_side [of m d] by auto
qed

lemma deref_pairs_subset:
  "deref n p = Some m \<Longrightarrow> set (preorder (Some m)) \<subseteq> set (preorder (Some n))"
proof (induction p arbitrary: n)
  case Nil
  then show ?case by simp
next
  case (Cons d p)
  from Cons.prems obtain c where c: "child d n = Some c" and m: "deref c p = Some m"
    by (auto split: option.splits)
  from Cons.IH [OF m] c show ?case
    by (auto simp: pairs_by_side [of n d])
qed

lemma target_pairs_subset:
  assumes "target nm head = Some t"
  shows "set (preorder (Some t)) \<subseteq> set (preorder (Some head))"
proof -
  have "set (preorder (Some t)) \<subseteq> set (preorder (Some (stop nm head)))"
    using target_child [OF assms] by (auto simp: pairs_by_side [of "stop nm head" "dir_of nm (stop nm head)"])
  with deref_pairs_subset [OF deref_walk [of head nm]] show ?thesis
    by blast
qed

lemma pairs_remove_root:
  "set (preorder (remove_root dnode)) \<subseteq>
     set (preorder (Some dnode)) \<union> (\<lambda>(k, v). (take 255 k, take 255 v)) ` set (preorder (Some dnode))"
proof (cases "rchild dnode")
  case None
  then show ?thesis
    by (cases dnode) (auto simp: remove_root_def)
next
  case r: (Some r)
  show ?thesis
  proof (cases "lchild dnode")
    case None
    with r show ?thesis
      by (cases dnode) (auto simp: remove_root_def)
  next
    case (Some l)
    have "(name (lmost r), val (lmost r)) \<in> set (preorder (Some r))"
      using preorder_lmost_splice [of r] by simp
    with r Some preorder_lmost_splice [of r] show ?thesis
      by (cases dnode) (auto simp: remove_root_def snprintf_MAXLEN_take image_iff)
  qed
qed

lemma db_add_pairs:
  "set (preorder (Some (fst (snd (db_add flt nm v head))))) \<subseteq>
     insert (take 255 nm, take 255 v) (set (preorder (Some head)))"
proof (cases "target nm head")
  case None
  have "set (preorder (node_constructor flt nm v None None)) \<subseteq> {(take 255 nm, take 255 v)}"
    by (auto simp: node_constructor_def snprintf_MAXLEN_take Let_def)
  with pairs_replace [where n = head and p = "walk nm head" and d = "dir_of nm (stop nm head)"
      and c = "node_constructor flt nm v None None"] db_add_absent(2) [OF None, of flt v]
  show ?thesis by auto
next
  case (Some t)
  then show ?thesis by (auto simp: db_add_found)
qed

lemma db_remove_pairs:
  "set (preorder (Some (fst (snd (db_remove nm head))))) \<subseteq>
     set (preorder (Some head)) \<union> (\<lambda>(k, v). (take 255 k, take 255 v)) ` set (preorder (Some head))"
proof (cases "target nm head")
  case None
  then show ?thesis by (simp add: db_remove_tree)
next
  case (Some dnode)
  from pairs_replace [where n = head and p = "walk nm head" and d = "dir_of nm (stop nm head)"
      and c = "remove_root dnode"]
    pairs_remove_root [of dnode] target_pairs_subset [OF Some] Some
  show ?thesis
    by (simp add: db_remove_tree) blast
qed

lemma names_bounded_pairs: "names_bounded head = (\<forall>(k, v)\<in>set (preorder (Some head)). length k < MAXLEN)"
  by (auto simp: names_bounded_def list_all_iff keys_pairs)

lemma db_add_names_bounded:
  assumes "names_bounded head"
  shows "names_bounded (fst (snd (db_add flt nm v head)))"
  using assms db_add_pairs [of flt nm v head]
  unfolding names_bounded_pairs by (fastforce simp: MAXLEN_def)

lemma db_remove_names_bounded:
  assumes "names_bounded head"
  shows "names_bounded (fst (snd (db_remove nm head)))"
  using assms db_remove_pairs [of nm head]
  unfolding names_bounded_pairs by (fastforce simp: MAXLEN_def)

lemma scan_s_token:
  assumes "scan_s n s = Some (tok, rest)"
  shows "length tok \<le> n \<and> \<not> list_ex isspace tok"
proof -
  from assms have "tok = take n (takeWhile (\<lambda>c. \<not> isspace c) (dropWhile isspace s))"
    by (auto simp: scan_s_def Let_def split: if_splits)
  then show ?thesis
    by (auto simp: list_ex_iff dest: in_set_takeD set_takeWhileD)
qed

lemma sscanf_1_token: "sscanf_1 s = Some nm \<Longrightarrow> length nm < MAXLEN"
  using scan_s_token [of 255 s nm]
  by (auto simp: sscanf_1_def MAXLEN_def split: option.splits)

lemma sscanf_2_token:
  "sscanf_2 s = Some (nm, v) \<Longrightarrow> length nm < MAXLEN \<and> \<not> list_ex isspace v"
  using scan_s_token [of 255 s nm] scan_s_token [of 255 _ v]
  by (auto simp: sscanf_2_def MAXLEN_def split: option.splits)

lemma db_add_spaceless:
  assumes "spaceless head" and "\<not> list_ex isspace v"
  shows "spaceless (fst (snd (db_add flt nm v head)))"
proof -
  from assms(2) have "\<not> list_ex isspace (take 255 v)"
    by (auto simp: list_ex_iff dest: in_set_takeD)
  with assms(1) db_add_pairs [of flt nm v head] show ?thesis
    unfolding spaceless_def list_all_iff by fastforce
qed

lemma db_remove_spaceless:
  assumes "spaceless head"
  shows "spaceless (fst (snd (db_remove nm head)))"
proof -
  have "\<not> list_ex isspace (take 255 v)" if "\<not> list_ex isspace v" for v
    using that by (auto simp: list_ex_iff dest: in_set_takeD)
  with assms db_remove_pairs [of nm head] show ?thesis
    unfolding spaceless_def list_all_iff by fastforce
qed

lemma protocol_map_head0: "protocol_map head0"
  by (simp add: protocol_map_def db_ordered_def names_bounded_def spaceless_def head0_def
      MAXLEN_def)

lemma db_add_protocol_map:
  assumes "protocol_map head" and "length nm < MAXLEN" and "\<not> list_ex isspace v"
  shows "protocol_map (fst (snd (db_add flt nm v head)))"
  using assms db_add_ordered [of head nm flt v] db_add_names_bounded [of head flt nm v]
    db_add_spaceless [of head v flt nm]
  by (auto simp: protocol_map_def)

lemma db_remove_protocol_map:
  assumes "protocol_map head"
  shows "protocol_map (fst (snd (db_remove nm head)))"
  using assms db_remove_ordered [of head nm] db_remove_names_bounded [of head nm]
    db_remove_spaceless [of head nm]
  by (simp add: protocol_map_def)

lemma interpret_protocol_map:
  "protocol_map (fst st) \<Longrightarrow>
     interpret_command fuel fs command response len st = Some (reply, head', flts') \<Longrightarrow>
     protocol_map head'"
  "protocol_map (fst st) \<Longrightarrow>
     interpret_lines fuel fs bufs response len st = Some (reply, head', flts') \<Longrightarrow>
     protocol_map head'"
proof (induction fuel fs command response len st and fuel fs bufs response len st
    arbitrary: reply head' flts' and reply head' flts'
    rule: interpret_command_interpret_lines.induct)
  case (1 fs command response len head flts)
  then show ?case by simp
next
  case (2 n fs response len head flts)
  then show ?case by simp
next
  case (3 n fs c response len head flts)
  then show ?case by simp
next
  case (4 n fs c c1 cs response len head flts)
  note pm = "4.prems"(1) [simplified]
  note run = "4.prems"(2)
  consider (q) "c = CHR ''q''" | (a) "c = CHR ''a''" | (d) "c = CHR ''d''" | (f) "c = CHR ''f''"
    | (other) "c \<noteq> CHR ''q''" "c \<noteq> CHR ''a''" "c \<noteq> CHR ''d''" "c \<noteq> CHR ''f''"
    by blast
  then show ?case
  proof cases
    case q
    with run pm show ?thesis
      by (cases "sscanf_1 (c1 # cs)") (auto simp: Let_def)
  next
    case a
    show ?thesis
    proof (cases "sscanf_2 (c1 # cs)")
      case None
      with run pm a show ?thesis by auto
    next
      case (Some nv)
      obtain nm v where nv: "nv = (nm, v)" by (cases nv) auto
      obtain ret hd2 evs where ad: "db_add (next_fault flts) nm v head = (ret, hd2, evs)"
        by (cases "db_add (next_fault flts) nm v head") auto
      from run a Some nv ad have "head' = hd2"
        by auto
      moreover from sscanf_2_token [OF Some [unfolded nv]] pm
      have "protocol_map (fst (snd (db_add (next_fault flts) nm v head)))"
        by (intro db_add_protocol_map) simp_all
      ultimately show ?thesis using ad by simp
    qed
  next
    case d
    show ?thesis
    proof (cases "sscanf_1 (c1 # cs)")
      case None
      with run pm d show ?thesis by auto
    next
      case (Some nm)
      obtain ret hd2 evs where rm: "db_remove nm head = (ret, hd2, evs)"
        by (cases "db_remove nm head") auto
      from run d Some rm have "head' = hd2"
        by auto
      with db_remove_protocol_map [OF pm, of nm] rm show ?thesis by simp
    qed
  next
    case f
    show ?thesis
    proof (cases "sscanf_1 (c1 # cs)")
      case None
      with run pm f show ?thesis by auto
    next
      case (Some nm)
      show ?thesis
      proof (cases "fs nm")
        case None
        with run pm f Some show ?thesis by auto
      next
        case b: (Some bytes)
        show ?thesis
        proof (cases "interpret_lines n fs (fgets_loop bytes) response len (head, flts)")
          case None
          with run f Some b show ?thesis by auto
        next
          case r: (Some res)
          obtain r2 h2 f2 where res: "res = (r2, h2, f2)" by (cases res) auto
          from run f Some b r res have "head' = h2"
            by auto
          moreover have "protocol_map h2"
            using "4.IH" [of nm bytes r2 h2 f2] f Some b r res "4.prems"(1)
            by simp
          ultimately show ?thesis by simp
        qed
      qed
    qed
  next
    case other
    with run pm show ?thesis by auto
  qed
next
  case (5 n fs response len head flts)
  then show ?case by simp
next
  case (6 n fs ibuf bufs response len head flts)
  show ?case
  proof (cases "interpret_command n fs ibuf response len (head, flts)")
    case None
    with "6.prems" show ?thesis by simp
  next
    case (Some res)
    obtain r2 h2 f2 where res: "res = (r2, h2, f2)" by (cases res) auto
    have pm2: "protocol_map h2"
      using "6.IH"(1) [of r2 h2 f2] "6.prems"(1) Some res by simp
    from "6.prems"(2) Some res
    have "interpret_lines n fs bufs r2 len (h2, f2) = Some (reply, head', flts')"
      by simp
    from "6.IH"(2) [OF Some res [symmetric] refl _ this] pm2 show ?thesis
      by simp
  qed
qed

text \<open>
  In a map the protocol can build no stored value reads as the reply to an ill-formed
  line, whatever the size of the response buffer: that reply holds a space.
\<close>

lemma protocol_map_no_ill_value:
  assumes "protocol_map head"
  shows "list_all (\<lambda>(k, v). take n v \<noteq> ''ill-formed command'')
           (preorder (lchild head) @ preorder (rchild head))"
proof -
  have "take n v \<noteq> ''ill-formed command''" if "\<not> list_ex isspace v" for v
  proof (rule take_not_ill)
    from that show "CHR '' '' \<notin> set v"
      by (auto simp: list_ex_iff isspace_def)
  qed
  moreover have "set (preorder (lchild head) @ preorder (rchild head)) \<subseteq> set (preorder (Some head))"
    by (cases head) auto
  ultimately show ?thesis
    using assms unfolding protocol_map_def spaceless_def list_all_iff by fastforce
qed

section \<open>The two-children removal scenario\<close>

text \<open>
  C1, as amended. From the empty map, insert d, b, a, c, f, e, g (each value equal to
  its key) and remove d. The removal returns 1. The target node takes over the key and
  the value of its in-order successor e, so afterwards the key d is gone (lookup of d
  finds nothing, \<open>db_query\<close> answers "not found"), lookup of e returns e, the map is
  ordered, and the dump lists the nodes e, b, a, c, f, g in pre-order.
\<close>

theorem two_children_removal:
  "fst (db_remove ''d''
          (insert_keys [''d'', ''b'', ''a'', ''c'', ''f'', ''e'', ''g''] head0)) = 1 \<and>
   lookup ''d'' (fst (snd (db_remove ''d''
          (insert_keys [''d'', ''b'', ''a'', ''c'', ''f'', ''e'', ''g''] head0)))) = None \<and>
   fst (db_query ''d'' [] 512 (fst (snd (db_remove ''d''
          (insert_keys [''d'', ''b'', ''a'', ''c'', ''f'', ''e'', ''g''] head0))))) = ''not found'' \<and>
   lookup ''e'' (fst (snd (db_remove ''d''
          (insert_keys [''d'', ''b'', ''a'', ''c'', ''f'', ''e'', ''g''] head0)))) = Some ''e'' \<and>
   fst (db_query ''e'' [] 512 (fst (snd (db_remove ''d''
          (insert_keys [''d'', ''b'', ''a'', ''c'', ''f'', ''e'', ''g''] head0))))) = ''e'' \<and>
   db_ordered (fst (snd (db_remove ''d''
          (insert_keys [''d'', ''b'', ''a'', ''c'', ''f'', ''e'', ''g''] head0)))) \<and>
   fst (db_print_recurs [] (Some (fst (snd (db_remove ''d''
          (insert_keys [''d'', ''b'', ''a'', ''c'', ''f'', ''e'', ''g''] head0))))) 0) =
     [(0, Root_item), (1, Null_item),
      (1, Entry ''e'' ''e''),
      (2, Entry ''b'' ''b''),
      (3, Entry ''a'' ''a''), (4, Null_item), (4, Null_item),
      (3, Entry ''c'' ''c''), (4, Null_item), (4, Null_item),
      (2, Entry ''f'' ''f''), (3, Null_item),
      (3, Entry ''g'' ''g''), (4, Null_item), (4, Null_item)]"
  by code_simp

text \<open>
  C1 as the specification states it fails: after the scenario, lookup of d does not
  return e; \<open>db_query\<close> answers "not found" for d, and e is still found.
\<close>

theorem two_children_removal_counterexample:
  "fst (db_query ''d'' [] 512 (fst (snd (db_remove ''d''
          (insert_keys [''d'', ''b'', ''a'', ''c'', ''f'', ''e'', ''g''] head0))))) \<noteq> ''e'' \<and>
   lookup ''d'' (fst (snd (db_remove ''d''
          (insert_keys [''d'', ''b'', ''a'', ''c'', ''f'', ''e'', ''g''] head0)))) \<noteq> Some ''e'' \<and>
   lookup ''e'' (fst (snd (db_remove ''d''
          (insert_keys [''d'', ''b'', ''a'', ''c'', ''f'', ''e'', ''g''] head0)))) \<noteq> None"
  by code_simp

section \<open>Insert: failed node creation, fresh keys, duplicates\<close>

text \<open>
  C2. When the key is absent and \<open>node_constructor\<close> returns null (an oversized key or
  value, or a failed allocation), \<open>db_add\<close> leaves the map as it was but returns 1,
  which \<open>interpret_command\<close> reports as "added": the insert is a no-op, yet it does not
  fail.
\<close>

theorem db_add_failed_constructor:
  assumes "lookup nm head = None"
    and "node_constructor flt nm v None None = None"
  shows "fst (db_add flt nm v head) = 1 \<and> fst (snd (db_add flt nm v head)) = head"
proof -
  from assms(1) have t: "target nm head = None"
    by (simp add: lookup_target)
  from db_add_absent [OF t, of flt v] assms(2) store_noop [OF t] show ?thesis
    by simp
qed

theorem db_add_failed_constructor_witness:
  "lookup ''k'' head0 = None \<and>
   node_constructor NodeMalloc ''k'' ''v'' None None = None \<and>
   node_constructor NoFault (replicate 257 (CHR ''k'')) ''v'' None None = None \<and>
   fst (db_add NodeMalloc ''k'' ''v'' head0) = 1 \<and>
   fst (snd (db_add NodeMalloc ''k'' ''v'' head0)) = head0 \<and>
   interpret_command 1 (\<lambda>f. None) ''a k v'' [] 512 (head0, [NodeMalloc]) =
     Some (''added'', head0, []) \<and>
   interpret_command 1 (\<lambda>f. None) ''q k'' [] 512 (head0, []) =
     Some (''not found'', head0, [])"
proof -
  have a: "lookup ''k'' head0 = None"
    by code_simp
  have b: "node_constructor NodeMalloc ''k'' ''v'' None None = None"
    by code_simp
  have c: "node_constructor NoFault (replicate 257 (CHR ''k'')) ''v'' None None = None"
    by (simp add: node_constructor_def MAXLEN_def)
  have d: "interpret_command 1 (\<lambda>f. None) ''a k v'' [] 512 (head0, [NodeMalloc]) =
     Some (''added'', head0, [])"
    by code_simp
  have e: "interpret_command 1 (\<lambda>f. None) ''q k'' [] 512 (head0, []) =
     Some (''not found'', head0, [])"
    by code_simp
  from db_add_failed_constructor [OF a b] a b c d e show ?thesis
    by simp
qed

text \<open>
  C3, as amended. For a key and a value of at most 255 bytes, from any map in which
  the key is not yet present, and when the node is created without a fault, \<open>db_add\<close>
  returns 1 and a lookup of the key right after it returns the value; \<open>db_query\<close>
  writes the value to any buffer that has room for it.
\<close>

theorem insert_then_lookup:
  assumes "lookup k head = None"
    and "length k \<le> 255" and "length v \<le> 255" and "length v < len"
  shows "fst (db_add NoFault k v head) = 1 \<and>
         lookup k (fst (snd (db_add NoFault k v head))) = Some v \<and>
         fst (db_query k result len (fst (snd (db_add NoFault k v head)))) = v"
proof -
  from assms(1) have t: "target k head = None"
    by (simp add: lookup_target)
  have nc: "node_constructor NoFault k v None None = Some (Node k v None None)"
    using assms(2,3) by (simp add: node_constructor_def MAXLEN_def snprintf_def)
  have "target k (fst (snd (db_add NoFault k v head))) = Some (Node k v None None)"
    using db_add_absent(2) [OF t, of NoFault v] nc
      target_after_attach [OF t, of "Node k v None None"]
    by (simp add: strcmp_eq_iff)
  then have l: "lookup k (fst (snd (db_add NoFault k v head))) = Some v"
    by (simp add: lookup_target)
  from l assms(4) have "fst (db_query k result len (fst (snd (db_add NoFault k v head)))) = v"
    by (simp add: db_query_lookup snprintf_def)
  with l db_add_absent(1) [OF t] show ?thesis
    by simp
qed

theorem insert_then_lookup_witness:
  "lookup ''b'' (insert_keys [''a'', ''c''] head0) = None \<and>
   lookup ''b'' (fst (snd (db_add NoFault ''b'' ''v'' (insert_keys [''a'', ''c''] head0)))) =
     Some ''v'' \<and>
   fst (db_query ''b'' [] 512
     (fst (snd (db_add NoFault ''b'' ''v'' (insert_keys [''a'', ''c''] head0))))) = ''v''"
proof -
  have a: "lookup ''b'' (insert_keys [''a'', ''c''] head0) = None"
    by code_simp
  from insert_then_lookup [OF a, of "''v''" 512 "[]"] a show ?thesis
    by simp
qed

text \<open>
  C3 as stated fails twice. When the key is already there with another value, the
  insert changes nothing and the lookup returns the old value; when the allocation of
  the node fails, the key is not there afterwards.
\<close>

theorem insert_then_lookup_counterexample:
  "lookup ''k'' (fst (snd (db_add NoFault ''k'' ''v2''
      (fst (snd (db_add NoFault ''k'' ''v1'' head0)))))) \<noteq> Some ''v2'' \<and>
   fst (db_query ''k'' [] 512 (fst (snd (db_add NoFault ''k'' ''v2''
      (fst (snd (db_add NoFault ''k'' ''v1'' head0))))))) \<noteq> ''v2'' \<and>
   lookup ''k'' (fst (snd (db_add NodeMalloc ''k'' ''v'' head0))) \<noteq> Some ''v''"
  by code_simp

text \<open>
  C6. If the key is present with value \<open>v1\<close>, then \<open>db_add\<close> with any value returns 0
  (which \<open>interpret_command\<close> reports as "already in database"), the map is unchanged,
  and a lookup of the key still returns \<open>v1\<close>. This holds whatever the allocator would
  have done: \<open>node_constructor\<close> is not reached.
\<close>

theorem insert_duplicate:
  assumes "lookup k head = Some v1"
  shows "fst (db_add flt k v2 head) = 0 \<and>
         fst (snd (db_add flt k v2 head)) = head \<and>
         lookup k (fst (snd (db_add flt k v2 head))) = Some v1"
proof -
  from assms obtain t where t: "target k head = Some t"
    by (auto simp: lookup_target)
  from db_add_found [OF t] assms show ?thesis
    by simp
qed

theorem insert_duplicate_witness:
  "lookup ''k'' (insert_keys [''k''] head0) = Some ''k'' \<and>
   fst (db_add NoFault ''k'' ''v2'' (insert_keys [''k''] head0)) = 0 \<and>
   fst (snd (db_add NoFault ''k'' ''v2'' (insert_keys [''k''] head0))) = insert_keys [''k''] head0 \<and>
   lookup ''k'' (fst (snd (db_add NoFault ''k'' ''v2'' (insert_keys [''k''] head0)))) = Some ''k''"
proof -
  have a: "lookup ''k'' (insert_keys [''k''] head0) = Some ''k''"
    by code_simp
  from insert_duplicate [OF a, of NoFault "''v2''"] a show ?thesis
    by simp
qed

section \<open>A key of exactly MAXLEN bytes\<close>

text \<open>
  C10, as amended. \<open>node_constructor\<close> (without a fault) rejects a key or value exactly
  when it is longer than \<open>MAXLEN\<close> = 256 bytes, and stores the first 255 bytes of what it
  accepts. So for a key of exactly 256 bytes and a value of at most 256 bytes, in a map
  whose names are all shorter than 256 bytes, \<open>db_add\<close> returns 1, the key that appears
  in the map is the 255-byte prefix, and a lookup of the 256-byte key finds nothing. A
  lookup of the prefix returns the value if the prefix was not a key of the map before
  and the value has at most 255 bytes.
\<close>

theorem key_of_maxlen_truncated:
  assumes "length k = MAXLEN" and "length v \<le> MAXLEN" and "names_bounded head"
  shows "(node_constructor NoFault a b l r = None) = (MAXLEN < length a \<or> MAXLEN < length b) \<and>
         node_constructor NoFault k v None None =
           Some (Node (take 255 k) (take 255 v) None None) \<and>
         fst (db_add NoFault k v head) = 1 \<and>
         set (keys (Some (fst (snd (db_add NoFault k v head))))) =
           insert (take 255 k) (set (keys (Some head))) \<and>
         lookup k (fst (snd (db_add NoFault k v head))) = None \<and>
         (lookup (take 255 k) head = None \<and> length v \<le> 255 \<longrightarrow>
            lookup (take 255 k) (fst (snd (db_add NoFault k v head))) = Some v)"
proof -
  let ?new = "Node (take 255 k) (take 255 v) None None"
  let ?head' = "fst (snd (db_add NoFault k v head))"
  have rej: "(node_constructor NoFault a b l r = None) = (MAXLEN < length a \<or> MAXLEN < length b)"
    by (simp add: node_constructor_def)
  have nc: "node_constructor NoFault k v None None = Some ?new"
    using assms(1,2) by (simp add: node_constructor_def MAXLEN_def snprintf_def)
  have t: "target k head = None"
    by (rule target_too_long [OF assms(3)]) (simp add: assms(1))
  have h': "?head' = store head (walk k head) (set_child (dir_of k (stop k head)) (Some ?new))"
    using db_add_absent(2) [OF t, of NoFault v] nc by simp
  have bnew: "names_bounded ?new"
    using assms(1) by (simp add: names_bounded_def MAXLEN_def)
  have b': "names_bounded ?head'"
    unfolding h' by (rule names_bounded_attach [OF t assms(3) bnew])
  have ks: "set (keys (Some ?head')) = insert (take 255 k) (set (keys (Some head)))"
    unfolding h' using keys_attach [OF t, of ?new] by simp
  have "target k ?head' = None"
    by (rule target_too_long [OF b']) (simp add: assms(1))
  then have lk: "lookup k ?head' = None"
    by (simp add: lookup_target)
  have pre: "lookup (take 255 k) ?head' = Some v"
    if a: "lookup (take 255 k) head = None" and lv: "length v \<le> 255"
  proof -
    have k: "k = take 255 k @ drop 255 k"
      by simp
    have ta: "target (take 255 k) head = None"
      using a by (simp add: lookup_target)
    have la: "length (take 255 k) = MAXLEN - 1"
      using assms(1) by (simp add: MAXLEN_def)
    have ne: "drop 255 k \<noteq> []"
      using assms(1) by (simp add: MAXLEN_def)
    from walk_prefix [OF assms(3) ta la ne]
    have w: "walk k head = walk (take 255 k) head" and s: "stop k head = stop (take 255 k) head"
      by simp_all
    have "length (name (stop (take 255 k) head)) \<le> length (take 255 k)"
    proof -
      have "name (stop (take 255 k) head) \<in> set (keys (Some head))"
        using deref_in_keys [OF deref_walk [of head "take 255 k"]] .
      with assms(3) have "length (name (stop (take 255 k) head)) < MAXLEN"
        by (auto simp: names_bounded_def list_all_iff)
      with la show ?thesis by simp
    qed
    from dir_of_prefix [OF this, of "drop 255 k"]
    have d: "dir_of k (stop (take 255 k) head) = dir_of (take 255 k) (stop (take 255 k) head)"
      by simp
    have "target (take 255 k) ?head' = Some ?new"
      unfolding h' w s d by (rule target_after_attach [OF ta]) (simp add: strcmp_eq_iff)
    with lv show ?thesis
      by (simp add: lookup_target)
  qed
  from rej nc db_add_absent(1) [OF t] ks lk pre show ?thesis
    by blast
qed

theorem key_of_maxlen_truncated_witness:
  "length (replicate 256 (CHR ''a'')) = MAXLEN \<and> names_bounded head0 \<and>
   lookup (replicate 255 (CHR ''a'')) head0 = None \<and>
   fst (db_add NoFault (replicate 256 (CHR ''a'')) ''v'' head0) = 1 \<and>
   lookup (replicate 256 (CHR ''a''))
     (fst (snd (db_add NoFault (replicate 256 (CHR ''a'')) ''v'' head0))) = None \<and>
   lookup (replicate 255 (CHR ''a''))
     (fst (snd (db_add NoFault (replicate 256 (CHR ''a'')) ''v'' head0))) = Some ''v''"
proof -
  have a: "length (replicate 256 (CHR ''a'')) = MAXLEN"
    by (simp add: MAXLEN_def)
  have b: "length ''v'' \<le> MAXLEN"
    by (simp add: MAXLEN_def)
  have c: "names_bounded head0"
    by (simp add: names_bounded_def head0_def MAXLEN_def)
  have d: "lookup (replicate 255 (CHR ''a'')) head0 = None"
    by (simp add: lookup_def head0_def)
  have e: "take 255 (replicate 256 (CHR ''a'')) = replicate 255 (CHR ''a'')"
    by simp
  from key_of_maxlen_truncated [OF a b c] a c d show ?thesis
    unfolding e by simp
qed

text \<open>
  C10 as stated fails when the 255-byte prefix is already a key: \<open>db_add\<close> of the
  256-byte key and the value "new" returns 1, but a lookup of the prefix still
  returns the older value.
\<close>

theorem key_of_maxlen_truncated_counterexample:
  "fst (db_add NoFault (replicate 256 (CHR ''a'')) ''new''
          (fst (snd (db_add NoFault (replicate 255 (CHR ''a'')) ''old'' head0)))) = 1 \<and>
   lookup (replicate 255 (CHR ''a''))
     (fst (snd (db_add NoFault (replicate 256 (CHR ''a'')) ''new''
        (fst (snd (db_add NoFault (replicate 255 (CHR ''a'')) ''old'' head0)))))) = Some ''old'' \<and>
   lookup (replicate 255 (CHR ''a''))
     (fst (snd (db_add NoFault (replicate 256 (CHR ''a'')) ''new''
        (fst (snd (db_add NoFault (replicate 255 (CHR ''a'')) ''old'' head0)))))) \<noteq> Some ''new''"
  by code_simp

section \<open>The ordering invariant\<close>

text \<open>
  C4 fails for \<open>db_add\<close>. The map that holds the 255-byte key aaa...a is ordered; adding
  the 256-byte key aaa...a returns 1 and links a second node with the same 255-byte
  name below the first, so the key is there twice and the map is no longer ordered.
\<close>

theorem ordering_broken_by_maxlen_key:
  "db_ordered (fst (snd (db_add NoFault (replicate 255 (CHR ''a'')) ''old'' head0))) \<and>
   fst (db_add NoFault (replicate 256 (CHR ''a'')) ''new''
        (fst (snd (db_add NoFault (replicate 255 (CHR ''a'')) ''old'' head0)))) = 1 \<and>
   keys (Some (fst (snd (db_add NoFault (replicate 256 (CHR ''a'')) ''new''
        (fst (snd (db_add NoFault (replicate 255 (CHR ''a'')) ''old'' head0))))))) =
     [[], replicate 255 (CHR ''a''), replicate 255 (CHR ''a'')] \<and>
   \<not> db_ordered (fst (snd (db_add NoFault (replicate 256 (CHR ''a'')) ''new''
        (fst (snd (db_add NoFault (replicate 255 (CHR ''a'')) ''old'' head0))))))"
  by code_simp

section \<open>The sentinel and the locks\<close>

text \<open>
  C7. \<open>search\<close> started at \<open>head\<close> never returns the address of \<open>head\<close>; none of
  \<open>db_query\<close>, \<open>db_add\<close> and \<open>db_remove\<close> calls \<open>node_destructor\<close> on \<open>head\<close>; \<open>db_add\<close> and
  \<open>db_remove\<close> leave the name and the value of \<open>head\<close> as they were, and these are the
  empty strings from the start. \<open>db_cleanup\<close> calls \<open>node_destructor\<close> exactly once on
  every node of the tree other than \<open>head\<close>, and not on \<open>head\<close>. No pointer field of the
  tree holds the address of \<open>head\<close>, so no write can unlink it.
\<close>

theorem sentinel_persists:
  "map_option fst (fst (search nm ([], head) parentpp lk)) \<noteq> Some [] \<and>
   Destroy [] \<notin> set (snd (db_query nm result len head)) \<and>
   Destroy [] \<notin> set (snd (snd (db_add flt nm v head))) \<and>
   Destroy [] \<notin> set (snd (snd (db_remove nm head))) \<and>
   name (fst (snd (db_add flt nm v head))) = name head \<and>
   val (fst (snd (db_add flt nm v head))) = val head \<and>
   name (fst (snd (db_remove nm head))) = name head \<and>
   val (fst (snd (db_remove nm head))) = val head \<and>
   name head0 = [] \<and> val head0 = [] \<and>
   set (db_cleanup head) = Destroy ` {p. p \<noteq> [] \<and> deref head p \<noteq> None} \<and>
   distinct (db_cleanup head)"
  using search_never_head [of nm head parentpp lk] db_query_locks [of nm result len head]
    db_add_locks [of flt nm v head] db_remove_locks [of nm head]
    db_add_payload [of flt nm v head] db_remove_payload [of nm head] db_cleanup_frees [of head]
  by (simp add: head0_def)



section \<open>The dump\<close>

text \<open>
  C5 fails on the map of the section on the ordering invariant. Both calls of
  \<open>db_add\<close> return 1. \<open>db_print\<close> returns 0 and writes the pre-order traversal of the map:
  the line of the sentinel, and two entry lines that carry the same 255-byte key
  aaa...a, the second one level below the first. Read back in pre-order the lines give
  the tree of the map, and its keys in in-order are that key twice: the sequence is not
  strictly increasing.
\<close>

theorem dump_lists_key_twice:
  "fst (db_add NoFault (replicate 255 (CHR ''a'')) ''old'' head0) = 1 \<and>
   fst (db_add NoFault (replicate 256 (CHR ''a'')) ''new''
        (fst (snd (db_add NoFault (replicate 255 (CHR ''a'')) ''old'' head0)))) = 1 \<and>
   fst (db_print can_open None
        (fst (snd (db_add NoFault (replicate 256 (CHR ''a'')) ''new''
           (fst (snd (db_add NoFault (replicate 255 (CHR ''a'')) ''old'' head0))))))) = 0 \<and>
   fst (snd (db_print can_open None
        (fst (snd (db_add NoFault (replicate 256 (CHR ''a'')) ''new''
           (fst (snd (db_add NoFault (replicate 255 (CHR ''a'')) ''old'' head0)))))))) =
     Some (Stdout,
       [(0, Root_item), (1, Null_item),
        (1, Entry (replicate 255 (CHR ''a'')) ''old''), (2, Null_item),
        (2, Entry (replicate 255 (CHR ''a'')) ''new''), (3, Null_item), (3, Null_item)]) \<and>
   read_back 7 0
       [(0, Root_item), (1, Null_item),
        (1, Entry (replicate 255 (CHR ''a'')) ''old''), (2, Null_item),
        (2, Entry (replicate 255 (CHR ''a'')) ''new''), (3, Null_item), (3, Null_item)] =
     Some (Some (fst (snd (db_add NoFault (replicate 256 (CHR ''a'')) ''new''
           (fst (snd (db_add NoFault (replicate 255 (CHR ''a'')) ''old'' head0)))))), []) \<and>
   keys (lchild (fst (snd (db_add NoFault (replicate 256 (CHR ''a'')) ''new''
           (fst (snd (db_add NoFault (replicate 255 (CHR ''a'')) ''old'' head0))))))) @
   keys (rchild (fst (snd (db_add NoFault (replicate 256 (CHR ''a'')) ''new''
           (fst (snd (db_add NoFault (replicate 255 (CHR ''a'')) ''old'' head0))))))) =
     [replicate 255 (CHR ''a''), replicate 255 (CHR ''a'')] \<and>
   \<not> sorted_wrt (\<lambda>a b. strcmp a b < 0)
       (keys (lchild (fst (snd (db_add NoFault (replicate 256 (CHR ''a'')) ''new''
           (fst (snd (db_add NoFault (replicate 255 (CHR ''a'')) ''old'' head0))))))) @
        keys (rchild (fst (snd (db_add NoFault (replicate 256 (CHR ''a'')) ''new''
           (fst (snd (db_add NoFault (replicate 255 (CHR ''a'')) ''old'' head0))))))))"
proof -
  let ?h = "fst (snd (db_add NoFault (replicate 256 (CHR ''a'')) ''new''
           (fst (snd (db_add NoFault (replicate 255 (CHR ''a'')) ''old'' head0)))))"
  have a: "fst (db_add NoFault (replicate 255 (CHR ''a'')) ''old'' head0) = 1"
    by code_simp
  have b: "fst (db_add NoFault (replicate 256 (CHR ''a'')) ''new''
        (fst (snd (db_add NoFault (replicate 255 (CHR ''a'')) ''old'' head0)))) = 1"
    by code_simp
  have c: "dump ?h =
       [(0, Root_item), (1, Null_item),
        (1, Entry (replicate 255 (CHR ''a'')) ''old''), (2, Null_item),
        (2, Entry (replicate 255 (CHR ''a'')) ''new''), (3, Null_item), (3, Null_item)]"
    by code_simp
  have d: "read_back 7 0
       [(0, Root_item), (1, Null_item),
        (1, Entry (replicate 255 (CHR ''a'')) ''old''), (2, Null_item),
        (2, Entry (replicate 255 (CHR ''a'')) ''new''), (3, Null_item), (3, Null_item)] =
     Some (Some ?h, [])"
    by code_simp
  have e: "keys (lchild ?h) @ keys (rchild ?h) =
     [replicate 255 (CHR ''a''), replicate 255 (CHR ''a'')]"
    by code_simp
  have f: "\<not> sorted_wrt (\<lambda>a b. strcmp a b < 0) (keys (lchild ?h) @ keys (rchild ?h))"
    by code_simp
  from a b c d e f show ?thesis
    by (simp only: db_print_writes(1) fst_conv snd_conv) simp
qed

section \<open>The command dispatcher\<close>

text \<open>
  C9. Let the response buffer have room for every fixed reply (20 bytes; the server
  passes 512) and let no value stored in the map read "ill-formed command" once cut to
  the buffer (values stored through \<open>interpret_command\<close> are \<open>%s\<close> tokens and hold no
  space). Then an ill-formed line is answered "ill-formed command" and leaves the map
  alone, and no other line is answered so by a run that returns. Only the first byte
  selects the operation: whatever follows it is handed to \<open>sscanf\<close>, so a line that
  starts with \<open>q\<close> or \<open>d\<close> and yields a token is a query or a removal of that token, and a
  line that starts with \<open>a\<close> and yields two tokens adds them; "quit" is the query for
  "uit".
\<close>

lemma file_dispatch:
  assumes "20 \<le> len" and "sscanf_1 (c1 # cs) = Some nm"
  shows "fs nm = None \<longrightarrow>
           interpret_command (Suc n) fs (CHR ''f'' # c1 # cs) response len (head, flts) =
             Some (''bad file name'', head, flts)"
    and "fs nm = Some bytes \<longrightarrow>
           interpret_command (Suc n) fs (CHR ''f'' # c1 # cs) response len (head, flts) =
             map_option (\<lambda>(response', st). (''file processed'', st))
               (interpret_lines n fs (fgets_loop bytes) response len (head, flts))"
  using assms
  by (auto simp: snprintf_def split: option.splits)

theorem interpret_command_dispatch:
  assumes "20 \<le> len"
    and "list_all (\<lambda>(k, v). take (len - 1) v \<noteq> ''ill-formed command'')
           (preorder (lchild head) @ preorder (rchild head))"
  shows "(ill_formed command \<longrightarrow>
            interpret_command (Suc n) fs command response len (head, flts) =
              Some (''ill-formed command'', head, flts)) \<and>
         (\<not> ill_formed command \<longrightarrow>
            (\<forall>reply st. interpret_command fuel fs command response len (head, flts) = Some (reply, st)
               \<longrightarrow> reply \<noteq> ''ill-formed command'')) \<and>
         (sscanf_1 (c1 # cs) = Some nm \<longrightarrow>
            interpret_command (Suc n) fs (CHR ''q'' # c1 # cs) response len (head, flts) =
              Some (case lookup nm head of
                      None \<Rightarrow> ''not found''
                    | Some v \<Rightarrow> if take (len - 1) v = [] then ''not found'' else take (len - 1) v,
                    head, flts) \<and>
            interpret_command (Suc n) fs (CHR ''d'' # c1 # cs) response len (head, flts) =
              Some (if fst (db_remove nm head) \<noteq> 0 then ''removed'' else ''not in database'',
                    fst (snd (db_remove nm head)), flts)) \<and>
         (sscanf_2 (c1 # cs) = Some (nm, v) \<longrightarrow>
            interpret_command (Suc n) fs (CHR ''a'' # c1 # cs) response len (head, flts) =
              Some (if fst (db_add (next_fault flts) nm v head) \<noteq> 0 then ''added''
                    else ''already in database'',
                    fst (snd (db_add (next_fault flts) nm v head)), tl flts)) \<and>
         (sscanf_1 (c1 # cs) = Some nm \<and> fs nm = None \<longrightarrow>
            interpret_command (Suc n) fs (CHR ''f'' # c1 # cs) response len (head, flts) =
              Some (''bad file name'', head, flts)) \<and>
         (sscanf_1 (c1 # cs) = Some nm \<and> fs nm = Some bytes \<longrightarrow>
            interpret_command (Suc n) fs (CHR ''f'' # c1 # cs) response len (head, flts) =
              map_option (\<lambda>(response', st). (''file processed'', st))
                (interpret_lines n fs (fgets_loop bytes) response len (head, flts)))"
  using ill_formed_reply [OF assms, of command n fs response flts fuel]
    query_dispatch [OF assms(1), of c1 cs nm n fs response head flts]
    remove_dispatch [OF assms(1), of c1 cs nm n fs response head flts]
    add_dispatch [OF assms(1), of c1 cs nm v n fs response head flts]
    file_dispatch(1) [OF assms(1), where ?c1.0 = c1 and cs = cs and nm = nm and fs = fs
      and n = n and response = response and head = head and flts = flts]
    file_dispatch(2) [OF assms(1), where ?c1.0 = c1 and cs = cs and nm = nm and fs = fs
      and n = n and response = response and head = head and flts = flts and bytes = bytes]
  by blast

theorem interpret_command_dispatch_witness:
  "\<not> ill_formed ''quit'' \<and>
   interpret_command 1 (\<lambda>f. None) ''quit'' [] 512 (insert_keys [''uit''] head0, []) =
     Some (''uit'', insert_keys [''uit''] head0, []) \<and>
   interpret_command 1 (\<lambda>f. None) ''q uit v'' [] 512 (insert_keys [''uit''] head0, []) =
     Some (''uit'', insert_keys [''uit''] head0, []) \<and>
   interpret_command 1 (\<lambda>f. None) ''a uit v'' [] 512 (insert_keys [''uit''] head0, []) =
     Some (''already in database'', insert_keys [''uit''] head0, []) \<and>
   interpret_command 1 (\<lambda>f. None) ''d uit v'' [] 512 (insert_keys [''uit''] head0, []) =
     Some (''removed'', head0, []) \<and>
   interpret_command 1 (\<lambda>f. None) ''f uit v'' [] 512 (insert_keys [''uit''] head0, []) =
     Some (''bad file name'', insert_keys [''uit''] head0, []) \<and>
   ill_formed ''a k'' \<and> ill_formed ''x y'' \<and> ill_formed ''q'' \<and> ill_formed ''q   '' \<and>
   interpret_command 1 (\<lambda>f. None) ''a k'' [] 512 (insert_keys [''uit''] head0, []) =
     Some (''ill-formed command'', insert_keys [''uit''] head0, [])"
proof -
  have a: "(20::nat) \<le> 512"
    by simp
  have b: "list_all (\<lambda>(k, v). take (512 - 1) v \<noteq> ''ill-formed command'')
      (preorder (lchild (insert_keys [''uit''] head0)) @
       preorder (rchild (insert_keys [''uit''] head0)))"
    by code_simp
  have c: "sscanf_1 ''uit'' = Some ''uit''" "sscanf_1 '' uit v'' = Some ''uit''"
    "sscanf_2 '' uit v'' = Some (''uit'', ''v'')"
    by code_simp+
  have d: "lookup ''uit'' (insert_keys [''uit''] head0) = Some ''uit''"
    "fst (db_add NoFault ''uit'' ''v'' (insert_keys [''uit''] head0)) = 0"
    "fst (snd (db_add NoFault ''uit'' ''v'' (insert_keys [''uit''] head0))) =
       insert_keys [''uit''] head0"
    "fst (db_remove ''uit'' (insert_keys [''uit''] head0)) = 1"
    "fst (snd (db_remove ''uit'' (insert_keys [''uit''] head0))) = head0"
    by code_simp+
  have e: "ill_formed ''a k''" "ill_formed ''x y''" "ill_formed ''q''" "ill_formed ''q   ''"
    "\<not> ill_formed ''quit''"
    by code_simp+
  note first = interpret_command_dispatch [OF a b, where command = "''a k''" and n = 0
      and fs = "\<lambda>f. None" and response = "[]" and flts = "[]" and fuel = 1
      and ?c1.0 = "CHR '' ''" and cs = "''uit v''" and nm = "''uit''" and v = "''v''"]
  note second = interpret_command_dispatch [OF a b, where command = "''quit''" and n = 0
      and fs = "\<lambda>f. None" and response = "[]" and flts = "[]" and fuel = 1
      and ?c1.0 = "CHR ''u''" and cs = "''it''" and nm = "''uit''"]
  from first second c d e show ?thesis
    by simp
qed

end
